theory Spec2Isabelle
  imports Main "HOL-Library.Word" "HOL-Library.Signed_Division"
begin

unbundle bit_operations_syntax

section \<open>Interrupt-driven UART driver with circular buffers\<close>

text \<open>
  The driver (\<^verbatim>\<open>uart.h\<close> and its C file) keeps two ring buffers, one per direction, in
  module-level variables. Two interrupt service routines and six application calls work
  on them. The model below follows the C text statement by statement:
  \<^item> \<^verbatim>\<open>unsigned char\<close> is \<open>8 word\<close>, \<^verbatim>\<open>unsigned int\<close> (16 bit on AVR) is \<open>16 word\<close>;
  \<^item> index arithmetic such as \<^verbatim>\<open>(UART_RxHead + 1) & UART_RX_BUFFER_MASK\<close> happens in C's
    \<^verbatim>\<open>int\<close> after integer promotion and is truncated on assignment to an
    \<^verbatim>\<open>unsigned char\<close>: it is written with \<open>uint\<close>, \<open>AND\<close> on \<open>int\<close> and \<open>word_of_int\<close>;
  \<^item> the module variables and the peripheral registers written by the code form a record
    that every operation takes and returns;
  \<^item> the values the hardware supplies (status and data register on a receive interrupt,
    interrupts arriving during the busy-wait) are arguments.
\<close>

subsection \<open>Compile-time configuration\<close>

text \<open>
  \<^verbatim>\<open>UART_RX_BUFFER_SIZE\<close> and \<^verbatim>\<open>UART_TX_BUFFER_SIZE\<close> may be overridden before
  \<^verbatim>\<open>uart.h\<close> is read (default 32). The register bit numbers \<^verbatim>\<open>FE\<close>, \<^verbatim>\<open>DOR\<close>, ... come
  from the device header of the toolchain, which is not part of the repository, so they
  are parameters as well.
\<close>

record config =
  UART_RX_BUFFER_SIZE :: nat
  UART_TX_BUFFER_SIZE :: nat
  FE :: nat
  DOR :: nat
  U2X :: nat
  RXCIE :: nat
  RXEN :: nat
  TXEN :: nat
  URSEL :: nat
  UCSZ0 :: nat
  UDRIE :: nat

definition UART_RX_BUFFER_MASK :: "config \<Rightarrow> int" where
  "UART_RX_BUFFER_MASK cfg = int (UART_RX_BUFFER_SIZE cfg) - 1"

definition UART_TX_BUFFER_MASK :: "config \<Rightarrow> int" where
  "UART_TX_BUFFER_MASK cfg = int (UART_TX_BUFFER_SIZE cfg) - 1"

definition UART_FRAME_ERROR :: "16 word" where
  "UART_FRAME_ERROR = 0x0800"

definition UART_OVERRUN_ERROR :: "16 word" where
  "UART_OVERRUN_ERROR = 0x0400"

definition UART_BUFFER_OVERFLOW :: "16 word" where
  "UART_BUFFER_OVERFLOW = 0x0200"

definition UART_NO_DATA :: "16 word" where
  "UART_NO_DATA = 0x0100"

text \<open>
  The header asks for buffer sizes that are powers of two. The indices are
  \<^verbatim>\<open>unsigned char\<close>, so 256 is the largest size whose slots can all be addressed, and a
  size of 1 makes the mask 0, by which \<^verbatim>\<open>UART_CharsAvail\<close> divides.
\<close>

definition buffer_size_ok :: "nat \<Rightarrow> bool" where
  "buffer_size_ok n = (n \<in> {2, 4, 8, 16, 32, 64, 128, 256})"

definition valid_config :: "config \<Rightarrow> bool" where
  "valid_config cfg =
     (buffer_size_ok (UART_RX_BUFFER_SIZE cfg) \<and> buffer_size_ok (UART_TX_BUFFER_SIZE cfg))"

text \<open>The default sizes of \<^verbatim>\<open>uart.h\<close> with the bit numbers of the ATmega16, the device the
  header names as tested.\<close>

definition atmega16 :: config where
  "atmega16 = \<lparr> UART_RX_BUFFER_SIZE = 32, UART_TX_BUFFER_SIZE = 32,
     FE = 4, DOR = 3, U2X = 1, RXCIE = 7, RXEN = 4, TXEN = 3, URSEL = 7, UCSZ0 = 1,
     UDRIE = 5 \<rparr>"

subsection \<open>Module variables and registers\<close>

text \<open>
  \<open>UCSRA\<close>, \<open>UCSRB\<close>, \<open>UCSRC\<close>, \<open>UBRRH\<close> and \<open>UBRRL\<close> hold the value last written by the
  code. \<open>UDR\<close> is write-only from the transmit side: the field lists the bytes written to
  it, oldest first. \<open>SREG_I\<close> is the global interrupt enable set by \<^verbatim>\<open>sei()\<close>.
\<close>

record state =
  UART_TxBuf :: "8 word list"
  UART_RxBuf :: "8 word list"
  UART_TxHead :: "8 word"
  UART_TxTail :: "8 word"
  UART_RxHead :: "8 word"
  UART_RxTail :: "8 word"
  UART_LastRxError :: "8 word"
  UCSRA :: "8 word"
  UCSRB :: "8 word"
  UCSRC :: "8 word"
  UBRRH :: "8 word"
  UBRRL :: "8 word"
  UDR :: "8 word list"
  SREG_I :: bool

text \<open>Static storage is zero-initialised; the arrays have their declared sizes.\<close>

definition startup :: "config \<Rightarrow> state" where
  "startup cfg = \<lparr> UART_TxBuf = replicate (UART_TX_BUFFER_SIZE cfg) 0,
     UART_RxBuf = replicate (UART_RX_BUFFER_SIZE cfg) 0,
     UART_TxHead = 0, UART_TxTail = 0, UART_RxHead = 0, UART_RxTail = 0,
     UART_LastRxError = 0, UCSRA = 0, UCSRB = 0, UCSRC = 0, UBRRH = 0, UBRRL = 0,
     UDR = [], SREG_I = False \<rparr>"

subsection \<open>Interrupt service routines\<close>

text \<open>\<^verbatim>\<open>ISR(UART_RECEIVE_INTERRUPT)\<close>: \<open>usr\<close> and \<open>data\<close> are the values read from the status
  and the data register.\<close>

definition ISR_UART_RECEIVE_INTERRUPT :: "config \<Rightarrow> 8 word \<Rightarrow> 8 word \<Rightarrow> state \<Rightarrow> state" where
  "ISR_UART_RECEIVE_INTERRUPT cfg usr data s =
     (let lastRxError = usr AND (push_bit (FE cfg) 1 OR push_bit (DOR cfg) 1);
          tmphead = (word_of_int ((uint (UART_RxHead s) + 1) AND UART_RX_BUFFER_MASK cfg) :: 8 word)
      in if tmphead = UART_RxTail s
         then s\<lparr>UART_LastRxError := ucast (drop_bit 8 UART_BUFFER_OVERFLOW)\<rparr>
         else s\<lparr>UART_RxHead := tmphead,
                UART_RxBuf := (UART_RxBuf s)[unat tmphead := data],
                UART_LastRxError := lastRxError\<rparr>)"

text \<open>\<^verbatim>\<open>ISR(UART_TRANSMIT_INTERRUPT)\<close>, the data-register-empty interrupt.\<close>

definition ISR_UART_TRANSMIT_INTERRUPT :: "config \<Rightarrow> state \<Rightarrow> state" where
  "ISR_UART_TRANSMIT_INTERRUPT cfg s =
     (if UART_TxHead s \<noteq> UART_TxTail s
      then let tmptail = (word_of_int ((uint (UART_TxTail s) + 1) AND UART_TX_BUFFER_MASK cfg) :: 8 word)
           in s\<lparr>UART_TxTail := tmptail, UDR := UDR s @ [UART_TxBuf s ! unat tmptail]\<rparr>
      else s\<lparr>UCSRB := UCSRB s AND NOT (push_bit (UDRIE cfg) 1)\<rparr>)"

subsection \<open>Application calls\<close>

definition UART_Init :: "config \<Rightarrow> 16 word \<Rightarrow> state \<Rightarrow> state" where
  "UART_Init cfg baudrate s =
     (let s1 = s\<lparr>UART_TxHead := 0, UART_TxTail := 0, UART_RxHead := 0, UART_RxTail := 0\<rparr>;
          s2 = (if baudrate AND 0x8000 \<noteq> 0 then s1\<lparr>UCSRA := push_bit (U2X cfg) 1\<rparr> else s1);
          baudrate' = (if baudrate AND 0x8000 \<noteq> 0 then baudrate AND NOT 0x8000 else baudrate)
      in s2\<lparr>UBRRH := ucast (drop_bit 8 baudrate'),
            UBRRL := ucast baudrate',
            UCSRB := push_bit (RXCIE cfg) 1 OR push_bit (RXEN cfg) 1 OR push_bit (TXEN cfg) 1,
            UCSRC := push_bit (URSEL cfg) 1 OR push_bit (UCSZ0 cfg) 3,
            SREG_I := True\<rparr>)"

text \<open>\<^verbatim>\<open>UART_CharGetNonBlocking\<close> returns its \<^verbatim>\<open>unsigned int\<close> result and the new state.\<close>

definition UART_CharGetNonBlocking :: "config \<Rightarrow> state \<Rightarrow> 16 word \<times> state" where
  "UART_CharGetNonBlocking cfg s =
     (if UART_RxHead s = UART_RxTail s then (UART_NO_DATA, s)
      else let tmptail = (word_of_int ((uint (UART_RxTail s) + 1) AND UART_RX_BUFFER_MASK cfg) :: 8 word);
               s' = s\<lparr>UART_RxTail := tmptail\<rparr>;
               data = UART_RxBuf s' ! unat tmptail
           in (push_bit 8 (ucast (UART_LastRxError s')) + ucast data, s'))"

text \<open>
  \<^verbatim>\<open>UART_CharsAvail\<close>: the arithmetic is C's \<^verbatim>\<open>int\<close> arithmetic, \<^verbatim>\<open>%\<close> truncates towards
  zero (\<open>smod\<close>). A mask of 0 would divide by zero, which is \<open>None\<close>.
\<close>

definition UART_CharsAvail :: "config \<Rightarrow> state \<Rightarrow> int option" where
  "UART_CharsAvail cfg s =
     (if UART_RX_BUFFER_MASK cfg = 0 then None
      else Some ((UART_RX_BUFFER_MASK cfg + uint (UART_RxHead s) - uint (UART_RxTail s))
                   smod UART_RX_BUFFER_MASK cfg))"

definition UART_FlushBuffer :: "state \<Rightarrow> state" where
  "UART_FlushBuffer s = s\<lparr>UART_RxHead := UART_RxTail s\<rparr>"

subsection \<open>The transmit producer and its busy-wait\<close>

text \<open>
  \<^verbatim>\<open>UART_CharPutNonBlocking\<close> spins on \<^verbatim>\<open>while (tmphead == UART_TxTail)\<close>. The variable
  is volatile: only an interrupt handler running between two polls can end the loop. The
  model takes the interrupts that arrive while the caller spins as a list. A poll that
  finds the buffer full lets the next interrupt of the list run and polls again; when the
  list is used up and the buffer is still full the call never returns, which is \<open>Spins\<close>.
  A call that returns hands back the interrupts it did not consume.
\<close>

datatype irq = RXC "8 word" "8 word" | UDRE

fun run_irq :: "config \<Rightarrow> irq \<Rightarrow> state \<Rightarrow> state" where
  "run_irq cfg (RXC usr data) s = ISR_UART_RECEIVE_INTERRUPT cfg usr data s"
| "run_irq cfg UDRE s = ISR_UART_TRANSMIT_INTERRUPT cfg s"

datatype outcome = Returned state "irq list" | Spins | Unterminated

fun wait_for_space :: "config \<Rightarrow> 8 word \<Rightarrow> irq list \<Rightarrow> state \<Rightarrow> (state \<times> irq list) option" where
  "wait_for_space cfg tmphead [] s =
     (if tmphead = UART_TxTail s then None else Some (s, []))"
| "wait_for_space cfg tmphead (i # pending) s =
     (if tmphead = UART_TxTail s then wait_for_space cfg tmphead pending (run_irq cfg i s)
      else Some (s, i # pending))"

definition UART_CharPutNonBlocking :: "config \<Rightarrow> 8 word \<Rightarrow> irq list \<Rightarrow> state \<Rightarrow> outcome" where
  "UART_CharPutNonBlocking cfg data pending s =
     (let tmphead = (word_of_int ((uint (UART_TxHead s) + 1) AND UART_TX_BUFFER_MASK cfg) :: 8 word)
      in case wait_for_space cfg tmphead pending s of
           None \<Rightarrow> Spins
         | Some (s1, pending') \<Rightarrow>
             Returned (s1\<lparr>UART_TxBuf := (UART_TxBuf s1)[unat tmphead := data],
                          UART_TxHead := tmphead,
                          UCSRB := UCSRB s1 OR push_bit (UDRIE cfg) 1\<rparr>) pending')"

text \<open>
  \<^verbatim>\<open>UART_StringPutNonBlocking\<close>: the argument lists the bytes found at \<^verbatim>\<open>s\<close>, \<^verbatim>\<open>s+1\<close>, ...
  The loop stops at the first zero byte. A list without one stands for memory that is
  read past its end, which is \<open>Unterminated\<close>.
\<close>

fun UART_StringPutNonBlocking :: "config \<Rightarrow> 8 word list \<Rightarrow> irq list \<Rightarrow> state \<Rightarrow> outcome" where
  "UART_StringPutNonBlocking cfg [] pending s = Unterminated"
| "UART_StringPutNonBlocking cfg (c # cs) pending s =
     (if c = 0 then Returned s pending
      else case UART_CharPutNonBlocking cfg c pending s of
             Returned s' pending' \<Rightarrow> UART_StringPutNonBlocking cfg cs pending' s'
           | Spins \<Rightarrow> Spins
           | Unterminated \<Rightarrow> Unterminated)"

subsection \<open>Sequences of operations, and what a ring buffer holds\<close>

text \<open>A burst of receive interrupts, each with the status and data byte the hardware
  presents, and a run of \<open>n\<close> calls of \<^verbatim>\<open>UART_CharGetNonBlocking\<close>.\<close>

fun receive_all :: "config \<Rightarrow> (8 word \<times> 8 word) list \<Rightarrow> state \<Rightarrow> state" where
  "receive_all cfg [] s = s"
| "receive_all cfg ((usr, data) # rest) s =
     receive_all cfg rest (ISR_UART_RECEIVE_INTERRUPT cfg usr data s)"

fun get_n :: "config \<Rightarrow> nat \<Rightarrow> state \<Rightarrow> 16 word list \<times> state" where
  "get_n cfg 0 s = ([], s)"
| "get_n cfg (Suc n) s =
     (case UART_CharGetNonBlocking cfg s of (r, s1) \<Rightarrow>
        case get_n cfg n s1 of (rs, s2) \<Rightarrow> (r # rs, s2))"

text \<open>
  The number of live elements of a ring buffer of capacity \<open>C\<close>, \<open>(head - tail) mod C\<close>, and
  the elements themselves, oldest first: they sit after \<open>tail\<close>, up to and including \<open>head\<close>.
\<close>

definition buffered :: "nat \<Rightarrow> 8 word \<Rightarrow> 8 word \<Rightarrow> nat" where
  "buffered C head tail = nat ((uint head - uint tail) mod int C)"

definition ring_contents :: "nat \<Rightarrow> 8 word list \<Rightarrow> 8 word \<Rightarrow> 8 word \<Rightarrow> 8 word list" where
  "ring_contents C buf head tail =
     map (\<lambda>i. buf ! ((unat tail + i) mod C)) [1 ..< Suc (buffered C head tail)]"

definition rx_queue :: "config \<Rightarrow> state \<Rightarrow> 8 word list" where
  "rx_queue cfg s = ring_contents (UART_RX_BUFFER_SIZE cfg) (UART_RxBuf s) (UART_RxHead s) (UART_RxTail s)"

definition rx_wf :: "config \<Rightarrow> state \<Rightarrow> bool" where
  "rx_wf cfg s = (length (UART_RxBuf s) = UART_RX_BUFFER_SIZE cfg \<and>
     unat (UART_RxHead s) < UART_RX_BUFFER_SIZE cfg \<and> unat (UART_RxTail s) < UART_RX_BUFFER_SIZE cfg)"


text \<open>The same for the transmit buffer.\<close>

definition tx_queue :: "config \<Rightarrow> state \<Rightarrow> 8 word list" where
  "tx_queue cfg s = ring_contents (UART_TX_BUFFER_SIZE cfg) (UART_TxBuf s) (UART_TxHead s) (UART_TxTail s)"

definition tx_wf :: "config \<Rightarrow> state \<Rightarrow> bool" where
  "tx_wf cfg s = (length (UART_TxBuf s) = UART_TX_BUFFER_SIZE cfg \<and>
     unat (UART_TxHead s) < UART_TX_BUFFER_SIZE cfg \<and> unat (UART_TxTail s) < UART_TX_BUFFER_SIZE cfg)"

subsection \<open>Concrete configurations and states\<close>

text \<open>A configuration with four slots per buffer, and the state after initialisation and
  three received bytes (the last one with both hardware error flags raised), which fills the
  receive buffer.\<close>

definition cap4 :: config where
  "cap4 = atmega16\<lparr>UART_RX_BUFFER_SIZE := 4, UART_TX_BUFFER_SIZE := 4\<rparr>"

definition abc_received :: state where
  "abc_received = receive_all cap4 [(0, 0x41), (0, 0x42), (0x18, 0x43)] (UART_Init cap4 25 (startup cap4))"


text \<open>The default configuration after initialisation and 31 received bytes \<open>1, 2, ..., 31\<close>:
  the 32-slot receive buffer is full.\<close>

definition thirty_one_received :: state where
  "thirty_one_received =
     receive_all atmega16 (map (\<lambda>i. (0, of_nat i)) [1 ..< 32]) (UART_Init atmega16 51 (startup atmega16))"

subsection \<open>Interleavings and reachable states\<close>

text \<open>A list of interrupts run one after the other.\<close>

fun run_irqs :: "config \<Rightarrow> irq list \<Rightarrow> state \<Rightarrow> state" where
  "run_irqs cfg [] s = s"
| "run_irqs cfg (i # pending) s = run_irqs cfg pending (run_irq cfg i s)"

text \<open>\<^verbatim>\<open>UART_CharPutNonBlocking\<close> applied to the characters of a list in order, each call
  continuing with the interrupts the previous one left.\<close>

fun put_each_in_order :: "config \<Rightarrow> 8 word list \<Rightarrow> irq list \<Rightarrow> state \<Rightarrow> outcome" where
  "put_each_in_order cfg [] pending s = Returned s pending"
| "put_each_in_order cfg (c # cs) pending s =
     (case UART_CharPutNonBlocking cfg c pending s of
        Returned s' pending' \<Rightarrow> put_each_in_order cfg cs pending' s'
      | Spins \<Rightarrow> Spins
      | Unterminated \<Rightarrow> Unterminated)"

text \<open>The number of live elements of each of the two buffers.\<close>

definition rx_live :: "config \<Rightarrow> state \<Rightarrow> nat" where
  "rx_live cfg s = buffered (UART_RX_BUFFER_SIZE cfg) (UART_RxHead s) (UART_RxTail s)"

definition tx_live :: "config \<Rightarrow> state \<Rightarrow> nat" where
  "tx_live cfg s = buffered (UART_TX_BUFFER_SIZE cfg) (UART_TxHead s) (UART_TxTail s)"

text \<open>The state after initialisation and the string \<^verbatim>\<open>"ABC"\<close> handed to the transmit
  producer, in the configuration with four slots: the transmit buffer is full.\<close>

definition abc_queued :: state where
  "abc_queued = (case UART_StringPutNonBlocking cap4 [0x41, 0x42, 0x43, 0] [] (UART_Init cap4 25 (startup cap4)) of
      Returned s pending \<Rightarrow> s | Spins \<Rightarrow> startup cap4 | Unterminated \<Rightarrow> startup cap4)"

definition indices_in_range :: "config \<Rightarrow> state \<Rightarrow> bool" where
  "indices_in_range cfg s =
     (unat (UART_RxHead s) < UART_RX_BUFFER_SIZE cfg \<and> unat (UART_RxTail s) < UART_RX_BUFFER_SIZE cfg \<and>
      unat (UART_TxHead s) < UART_TX_BUFFER_SIZE cfg \<and> unat (UART_TxTail s) < UART_TX_BUFFER_SIZE cfg)"

text \<open>
  The states the driver can be in: \<^verbatim>\<open>UART_Init\<close> runs first, on arrays of the declared
  sizes, and then interrupt handlers and application calls follow in any order. Each
  operation is one step; a call of the transmit producer that never returns produces no
  state of its own (the interrupts that ran while it waited are steps themselves).
\<close>

inductive reachable :: "config \<Rightarrow> state \<Rightarrow> bool" for cfg :: config where
  init: "length (UART_RxBuf s) = UART_RX_BUFFER_SIZE cfg \<Longrightarrow>
         length (UART_TxBuf s) = UART_TX_BUFFER_SIZE cfg \<Longrightarrow>
         reachable cfg (UART_Init cfg baudrate s)"
| rx_irq: "reachable cfg s \<Longrightarrow> reachable cfg (ISR_UART_RECEIVE_INTERRUPT cfg usr data s)"
| tx_irq: "reachable cfg s \<Longrightarrow> reachable cfg (ISR_UART_TRANSMIT_INTERRUPT cfg s)"
| getc: "reachable cfg s \<Longrightarrow> reachable cfg (snd (UART_CharGetNonBlocking cfg s))"
| putc: "reachable cfg s \<Longrightarrow> UART_CharPutNonBlocking cfg data pending s = Returned s' pending' \<Longrightarrow>
         reachable cfg s'"
| puts: "reachable cfg s \<Longrightarrow> UART_StringPutNonBlocking cfg str pending s = Returned s' pending' \<Longrightarrow>
         reachable cfg s'"
| flush: "reachable cfg s \<Longrightarrow> reachable cfg (UART_FlushBuffer s)"

section \<open>Index arithmetic\<close>

lemma buffer_size_okD:
  assumes "buffer_size_ok n"
  obtains k where "1 \<le> k" "k \<le> 8" "n = 2 ^ k"
proof -
  from assms have "n = 2^1 \<or> n = 2^2 \<or> n = 2^3 \<or> n = 2^4 \<or> n = 2^5 \<or> n = 2^6 \<or> n = 2^7 \<or> n = 2^8"
    by (simp add: buffer_size_ok_def)
  then show thesis using that by (elim disjE) (rule that[of 1] that[of 2] that[of 3] that[of 4] that[of 5] that[of 6] that[of 7] that[of 8]; simp)+
qed

lemma and_mask_int: "(x::int) AND (2 ^ k - 1) = x mod 2 ^ k"
  by (simp flip: mask_eq_exp_minus_1 take_bit_eq_mask add: take_bit_eq_mod)

text \<open>Masking with \<open>size - 1\<close> is reduction modulo the size, and the result fits the
  \<^verbatim>\<open>unsigned char\<close> it is stored in.\<close>

lemma next_index:
  assumes "buffer_size_ok n"
  shows "unat (word_of_int ((uint (h :: 8 word) + 1) AND (int n - 1)) :: 8 word) = (unat h + 1) mod n"
proof -
  from assms obtain k where k: "1 \<le> k" "k \<le> 8" "n = 2 ^ k" by (rule buffer_size_okD)
  let ?x = "(uint h + 1) mod (2::int) ^ k"
  have "(2::int) ^ k \<le> 2 ^ 8" using k by (intro power_increasing) simp_all
  then have le: "(2::int) ^ k \<le> 256" by simp
  have eq: "(uint h + 1) AND (int n - 1) = ?x"
    using k by (simp add: and_mask_int)
  have nn: "0 \<le> ?x" by simp
  have lt: "?x < 2 ^ k" by simp
  have "?x < 256" by (rule order_less_le_trans [OF lt le])
  then have small: "?x mod 256 = ?x"
    using nn by (intro mod_pos_pos_trivial)
  have "int (unat (word_of_int ?x :: 8 word)) = uint (word_of_int ?x :: 8 word)"
    by simp
  also have "\<dots> = ?x mod 256"
    by (simp only: uint_word_of_int take_bit_eq_mod) simp
  also have "\<dots> = ?x" by (rule small)
  also have "\<dots> = int ((unat h + 1) mod 2 ^ k)"
    by (simp add: zmod_int add.commute)
  finally have "unat (word_of_int ?x :: 8 word) = (unat h + 1) mod 2 ^ k"
    by (simp only: of_nat_eq_iff)
  then show ?thesis using eq k by simp
qed

text \<open>The size is even, so the successor index always differs from the index.\<close>

lemma next_index_neq:
  assumes "buffer_size_ok n"
  shows "(word_of_int ((uint (h :: 8 word) + 1) AND (int n - 1)) :: 8 word) \<noteq> h"
proof
  assume eq: "(word_of_int ((uint h + 1) AND (int n - 1)) :: 8 word) = h"
  from assms obtain k where k: "1 \<le> k" "k \<le> 8" "n = 2 ^ k" by (rule buffer_size_okD)
  have "unat h = (unat h + 1) mod n" using next_index [OF assms, of h] eq by simp
  then have "even (unat h) = even ((unat h + 1) mod 2 ^ k)" using k by simp
  also have "\<dots> = even (unat h + 1)"
    using k by (intro dvd_mod_iff) simp
  finally show False by simp
qed

lemma next_index_lt:
  assumes "buffer_size_ok n"
  shows "unat (word_of_int ((uint (h :: 8 word) + 1) AND (int n - 1)) :: 8 word) < n"
proof -
  from assms have "0 < n" by (auto simp: buffer_size_ok_def)
  then show ?thesis by (simp add: next_index [OF assms])
qed

section \<open>The composite return value\<close>

lemma composite_or:
  "push_bit 8 (ucast (e :: 8 word)) + (ucast (d :: 8 word) :: 16 word) = push_bit 8 (ucast e) OR ucast d"
  by (rule disjunctive_add_eq_or, rule bit_eqI) (auto simp: bit_simps dest: bit_imp_le_length)

lemma composite_high:
  "ucast (drop_bit 8 (push_bit 8 (ucast (e :: 8 word)) + (ucast (d :: 8 word) :: 16 word))) = e"
  unfolding composite_or by (rule bit_eqI) (auto simp: bit_simps dest: bit_imp_le_length)

lemma composite_low:
  "ucast (push_bit 8 (ucast (e :: 8 word)) + (ucast (d :: 8 word) :: 16 word)) = d"
  unfolding composite_or by (rule bit_eqI) (auto simp: bit_simps dest: bit_imp_le_length)

section \<open>Live elements of a ring buffer\<close>

lemma live_nat:
  assumes "a < C" "b < C"
  shows "nat ((int a - int b) mod int C) = (if b \<le> a then a - b else a + C - b)"
proof (cases "b \<le> a")
  case True
  then have "int a - int b = int (a - b)" by simp
  then have "(int a - int b) mod int C = int (a - b) mod int C" by (simp only:)
  also have "\<dots> = int ((a - b) mod C)" by (rule zmod_int [symmetric])
  also have "(a - b) mod C = a - b" using assms by simp
  finally show ?thesis using True by simp
next
  case False
  then have eq: "int a - int b + int C = int (a + C - b)" using assms by simp
  have "(int a - int b) mod int C = (int a - int b + int C) mod int C" by simp
  also have "\<dots> = int (a + C - b) mod int C" by (simp only: eq)
  also have "\<dots> = int ((a + C - b) mod C)" by (rule zmod_int [symmetric])
  also have "(a + C - b) mod C = a + C - b" using assms False by simp
  finally show ?thesis using False by simp
qed

lemma buffered_in_range:
  assumes "unat h < C" "unat t < C"
  shows "buffered C h t = (if unat t \<le> unat h then unat h - unat t else unat h + C - unat t)"
  using live_nat [OF assms] by (simp add: buffered_def)

section \<open>Concrete configurations\<close>

lemma valid_atmega16: "valid_config atmega16"
  by (simp add: valid_config_def buffer_size_ok_def atmega16_def)

lemma valid_cap4: "valid_config cap4"
  by (simp add: valid_config_def buffer_size_ok_def atmega16_def cap4_def)

section \<open>Flushing the receive buffer\<close>

text \<open>
  Claim C2, as the code has it: \<^verbatim>\<open>UART_FlushBuffer\<close> discards the buffered receive bytes
  by setting the receive head equal to the receive tail. It modifies the head index and
  leaves the tail index and all other state unchanged: restoring the old head gives the
  old state back.
\<close>

theorem flush_sets_head_to_tail:
  "UART_RxHead (UART_FlushBuffer s) = UART_RxTail s \<and>
   UART_RxTail (UART_FlushBuffer s) = UART_RxTail s \<and>
   (UART_FlushBuffer s)\<lparr>UART_RxHead := UART_RxHead s\<rparr> = s"
  by (simp add: UART_FlushBuffer_def)

text \<open>
  Claim C2 as stated (the tail is set to the head, the head is unchanged) fails: with three
  bytes buffered, head 3 and tail 0, the flush leaves the tail at 0 and moves the head.
\<close>

theorem flush_tail_counterexample:
  "\<not> (UART_RxTail (UART_FlushBuffer abc_received) = UART_RxHead abc_received \<and>
      UART_RxHead (UART_FlushBuffer abc_received) = UART_RxHead abc_received)"
  by code_simp

text \<open>
  Claim C7: after \<^verbatim>\<open>UART_FlushBuffer\<close> on any state, \<^verbatim>\<open>UART_CharsAvail\<close> returns 0 and
  the next \<^verbatim>\<open>UART_CharGetNonBlocking\<close> returns the no-data value without changing the
  state, whatever was buffered before.
\<close>

theorem flush_then_empty:
  assumes "valid_config cfg"
  shows "UART_CharsAvail cfg (UART_FlushBuffer s) = Some 0 \<and>
         UART_CharGetNonBlocking cfg (UART_FlushBuffer s) = (UART_NO_DATA, UART_FlushBuffer s)"
proof -
  from assms have "buffer_size_ok (UART_RX_BUFFER_SIZE cfg)" by (simp add: valid_config_def)
  then have "UART_RX_BUFFER_MASK cfg \<noteq> 0"
    by (auto simp: buffer_size_ok_def UART_RX_BUFFER_MASK_def)
  then show ?thesis
    by (simp add: UART_CharsAvail_def UART_FlushBuffer_def UART_CharGetNonBlocking_def
        signed_modulo_int_def)
qed

theorem flush_then_empty_witness:
  "valid_config cap4 \<and> rx_queue cap4 abc_received = [0x41, 0x42, 0x43] \<and>
   UART_CharsAvail cap4 (UART_FlushBuffer abc_received) = Some 0 \<and>
   UART_CharGetNonBlocking cap4 (UART_FlushBuffer abc_received)
     = (UART_NO_DATA, UART_FlushBuffer abc_received)"
  using flush_then_empty [OF valid_cap4, where s = abc_received] valid_cap4 by code_simp

section \<open>The interrupt handlers\<close>

text \<open>
  Claim C8: a transmit interrupt with \<open>TxHead \<noteq> TxTail\<close> advances \<open>TxTail\<close> to
  \<open>(TxTail + 1) mod C\<close> and writes the byte at the new tail to the data register, changing
  nothing else; with \<open>TxHead = TxTail\<close> it clears the UDRE interrupt enable bit of the
  control register and leaves both indices, and everything else, as they were.
\<close>

theorem tx_interrupt_effect:
  assumes "valid_config cfg"
  shows "(let s' = ISR_UART_TRANSMIT_INTERRUPT cfg s in
          if UART_TxHead s \<noteq> UART_TxTail s
          then unat (UART_TxTail s') = (unat (UART_TxTail s) + 1) mod UART_TX_BUFFER_SIZE cfg \<and>
               s' = s\<lparr>UART_TxTail := UART_TxTail s',
                      UDR := UDR s @ [UART_TxBuf s ! unat (UART_TxTail s')]\<rparr>
          else s' = s\<lparr>UCSRB := UCSRB s AND NOT (push_bit (UDRIE cfg) 1)\<rparr> \<and>
               \<not> bit (UCSRB s') (UDRIE cfg) \<and>
               UART_TxHead s' = UART_TxHead s \<and> UART_TxTail s' = UART_TxTail s)"
proof -
  from assms have ok: "buffer_size_ok (UART_TX_BUFFER_SIZE cfg)" by (simp add: valid_config_def)
  show ?thesis
    by (simp add: ISR_UART_TRANSMIT_INTERRUPT_def Let_def UART_TX_BUFFER_MASK_def
        next_index [OF ok] bit_simps)
qed

theorem tx_interrupt_effect_witness:
  "valid_config cap4 \<and>
   ISR_UART_TRANSMIT_INTERRUPT cap4 (abc_received\<lparr>UART_TxBuf := [0, 0x58, 0, 0], UART_TxHead := 1\<rparr>)
     = abc_received\<lparr>UART_TxBuf := [0, 0x58, 0, 0], UART_TxHead := 1, UART_TxTail := 1, UDR := [0x58]\<rparr> \<and>
   ISR_UART_TRANSMIT_INTERRUPT cap4 (abc_received\<lparr>UCSRB := 0xB8\<rparr>) = abc_received\<lparr>UCSRB := 0x98\<rparr>"
  using tx_interrupt_effect [OF valid_cap4, where s = "abc_received\<lparr>UART_TxBuf := [0, 0x58, 0, 0], UART_TxHead := 1\<rparr>"]
    tx_interrupt_effect [OF valid_cap4, where s = "abc_received\<lparr>UCSRB := 0xB8\<rparr>"] valid_cap4
  by code_simp

text \<open>
  Claim C3: a receive interrupt that finds \<open>(RxHead + 1) mod C = RxTail\<close> drops the byte:
  the only change is that \<open>UART_LastRxError\<close> becomes the buffer-overflow code, whatever the
  status register said. Otherwise the byte is stored at \<open>(RxHead + 1) mod C\<close>, \<open>RxHead\<close>
  moves there and \<open>UART_LastRxError\<close> becomes the framing and overrun bits of the status
  register; in an array of the declared size the slot at the new head then holds the byte.
  Either way the new \<open>UART_LastRxError\<close> does not depend on the old one.
\<close>

theorem rx_interrupt_effect:
  assumes "valid_config cfg"
  shows "(let s' = ISR_UART_RECEIVE_INTERRUPT cfg usr data s in
          if (unat (UART_RxHead s) + 1) mod UART_RX_BUFFER_SIZE cfg = unat (UART_RxTail s)
          then s' = s\<lparr>UART_LastRxError := 2\<rparr> \<and>
               push_bit 8 (ucast (UART_LastRxError s')) = UART_BUFFER_OVERFLOW
          else unat (UART_RxHead s') = (unat (UART_RxHead s) + 1) mod UART_RX_BUFFER_SIZE cfg \<and>
               s' = s\<lparr>UART_RxHead := UART_RxHead s',
                      UART_RxBuf := (UART_RxBuf s)[unat (UART_RxHead s') := data],
                      UART_LastRxError := usr AND (push_bit (FE cfg) 1 OR push_bit (DOR cfg) 1)\<rparr> \<and>
               (length (UART_RxBuf s) = UART_RX_BUFFER_SIZE cfg \<longrightarrow>
                  UART_RxBuf s' ! unat (UART_RxHead s') = data))"
proof -
  from assms have ok: "buffer_size_ok (UART_RX_BUFFER_SIZE cfg)" by (simp add: valid_config_def)
  let ?t = "word_of_int ((uint (UART_RxHead s) + 1) AND (int (UART_RX_BUFFER_SIZE cfg) - 1)) :: 8 word"
  have full: "(?t = UART_RxTail s) = ((unat (UART_RxHead s) + 1) mod UART_RX_BUFFER_SIZE cfg = unat (UART_RxTail s))"
    using next_index [OF ok, of "UART_RxHead s"] by (metis word_unat_eq_iff)
  have lt: "unat ?t < UART_RX_BUFFER_SIZE cfg" by (rule next_index_lt [OF ok])
  show ?thesis
    using lt
    by (simp add: ISR_UART_RECEIVE_INTERRUPT_def Let_def UART_RX_BUFFER_MASK_def
        full next_index [OF ok] UART_BUFFER_OVERFLOW_def)
qed

theorem rx_interrupt_effect_witness:
  "valid_config cap4 \<and> length (UART_RxBuf (startup cap4)) = UART_RX_BUFFER_SIZE cap4 \<and>
   ISR_UART_RECEIVE_INTERRUPT cap4 0x18 0x44 abc_received = abc_received\<lparr>UART_LastRxError := 2\<rparr> \<and>
   ISR_UART_RECEIVE_INTERRUPT cap4 0x18 0x41 (startup cap4)
     = (startup cap4)\<lparr>UART_RxHead := 1, UART_RxBuf := [0, 0x41, 0, 0], UART_LastRxError := 0x18\<rparr>"
  using rx_interrupt_effect [OF valid_cap4, where s = abc_received and usr = "0x18" and data = "0x44"]
    rx_interrupt_effect [OF valid_cap4, where s = "startup cap4" and usr = "0x18" and data = "0x41"] valid_cap4
  by code_simp

section \<open>The receive consumer\<close>

text \<open>
  Claim C5: \<^verbatim>\<open>UART_CharGetNonBlocking\<close> returns the no-data value \<open>0x0100\<close> and leaves the
  state alone exactly when \<open>RxHead = RxTail\<close>. Otherwise the only change is that \<open>RxTail\<close>
  advances to \<open>(RxTail + 1) mod C\<close>, and the result carries \<open>UART_LastRxError\<close> in its high
  byte and the byte at the new tail in its low byte. The result alone tells the two cases
  apart as long as \<open>UART_LastRxError\<close> is not 1, the high byte of the no-data value.
\<close>

theorem get_effect:
  assumes "valid_config cfg"
  shows "(case UART_CharGetNonBlocking cfg s of (r, s') \<Rightarrow>
           ((r = UART_NO_DATA \<and> s' = s) = (UART_RxHead s = UART_RxTail s)) \<and>
           (UART_RxHead s \<noteq> UART_RxTail s \<longrightarrow>
              unat (UART_RxTail s') = (unat (UART_RxTail s) + 1) mod UART_RX_BUFFER_SIZE cfg \<and>
              s' = s\<lparr>UART_RxTail := UART_RxTail s'\<rparr> \<and>
              r = push_bit 8 (ucast (UART_LastRxError s)) + ucast (UART_RxBuf s ! unat (UART_RxTail s')) \<and>
              ucast (drop_bit 8 r) = UART_LastRxError s \<and>
              ucast r = UART_RxBuf s ! unat (UART_RxTail s')) \<and>
           (UART_LastRxError s \<noteq> 1 \<longrightarrow> (r = UART_NO_DATA) = (UART_RxHead s = UART_RxTail s)))"
proof -
  from assms have ok: "buffer_size_ok (UART_RX_BUFFER_SIZE cfg)" by (simp add: valid_config_def)
  let ?t = "word_of_int ((uint (UART_RxTail s) + 1) AND (int (UART_RX_BUFFER_SIZE cfg) - 1)) :: 8 word"
  let ?r = "push_bit 8 (ucast (UART_LastRxError s)) + ucast (UART_RxBuf s ! unat ?t) :: 16 word"
  have "?t \<noteq> UART_RxTail s" by (rule next_index_neq [OF ok])
  then have neq: "s\<lparr>UART_RxTail := ?t\<rparr> \<noteq> s"
    by (metis state.select_convs(6) state.surjective state.update_convs(6))
  have val: "?r \<noteq> UART_NO_DATA" if "UART_LastRxError s \<noteq> 1"
  proof
    assume "?r = UART_NO_DATA"
    then have "(ucast (drop_bit 8 ?r) :: 8 word) = ucast (drop_bit 8 UART_NO_DATA)" by simp
    then have "UART_LastRxError s = 1"
      by (simp only: composite_high) (simp add: UART_NO_DATA_def)
    with that show False by simp
  qed
  show ?thesis
    using neq val
    by (simp add: UART_CharGetNonBlocking_def Let_def UART_RX_BUFFER_MASK_def
        next_index [OF ok] composite_high composite_low)
qed

theorem get_effect_witness:
  "valid_config cap4 \<and> UART_LastRxError abc_received \<noteq> 1 \<and>
   UART_RxHead abc_received \<noteq> UART_RxTail abc_received \<and>
   UART_CharGetNonBlocking cap4 abc_received = (0x1841, abc_received\<lparr>UART_RxTail := 1\<rparr>) \<and>
   UART_RxHead (startup cap4) = UART_RxTail (startup cap4) \<and>
   UART_CharGetNonBlocking cap4 (startup cap4) = (UART_NO_DATA, startup cap4)"
  using get_effect [OF valid_cap4, where s = abc_received]
    get_effect [OF valid_cap4, where s = "startup cap4"] valid_cap4
  by code_simp

section \<open>The receive buffer as a queue\<close>

lemma mod_distinct:
  fixes a b C :: nat
  assumes "a < b" "b - a < C"
  shows "a mod C \<noteq> b mod C"
proof
  assume "a mod C = b mod C"
  then have "b mod C = a mod C" by simp
  moreover have "a \<le> b" using assms by simp
  ultimately have "C dvd b - a" by (simp add: mod_eq_dvd_iff_nat)
  then have "C \<le> b - a" using assms by (intro dvd_imp_le) simp_all
  with assms show False by simp
qed

lemma buffered_head:
  assumes "unat h < C" "unat t < C"
  shows "(unat t + buffered C h t) mod C = unat h"
  using assms by (auto simp add: buffered_in_range mod_if)

lemma buffered_less:
  assumes "unat h < C" "unat t < C"
  shows "buffered C h t < C"
  using assms by (auto simp add: buffered_in_range)

lemma buffered_zero_iff:
  assumes "unat h < C" "unat t < C"
  shows "buffered C h t = 0 \<longleftrightarrow> h = t"
  using assms by (auto simp: buffered_in_range word_unat_eq_iff)

lemma buffered_push:
  assumes "unat h < C" "unat t < C" "unat h' = (unat h + 1) mod C" "(unat h + 1) mod C \<noteq> unat t"
  shows "buffered C h' t = buffered C h t + 1"
proof -
  have "unat h' < C" using assms by simp
  then show ?thesis using assms
    by (auto simp add: buffered_in_range mod_if split: if_splits)
qed

lemma buffered_full:
  assumes "unat h < C" "unat t < C"
  shows "(unat h + 1) mod C = unat t \<longleftrightarrow> buffered C h t = C - 1"
  using assms by (auto simp add: buffered_in_range mod_if split: if_splits)

lemma buffered_pop:
  assumes "unat h < C" "unat t < C" "unat t' = (unat t + 1) mod C" "h \<noteq> t"
  shows "buffered C h t' = buffered C h t - 1"
proof -
  have "unat t' < C" using assms by simp
  moreover have "unat h \<noteq> unat t" using assms by (simp add: word_unat_eq_iff)
  ultimately show ?thesis using assms
    by (auto simp add: buffered_in_range mod_if split: if_splits)
qed

lemma ring_contents_push:
  assumes h: "unat h < C" and t: "unat t < C" and len: "length buf = C"
    and h': "unat h' = (unat h + 1) mod C" and nf: "(unat h + 1) mod C \<noteq> unat t"
  shows "ring_contents C (buf[unat h' := d]) h' t = ring_contents C buf h t @ [d]"
proof -
  let ?n = "buffered C h t"
  have n': "buffered C h' t = Suc ?n" using buffered_push [OF h t h' nf] by simp
  have hd: "(unat t + ?n) mod C = unat h" by (rule buffered_head [OF h t])
  have nC: "?n < C" by (rule buffered_less [OF h t])
  have pos: "unat h' = (unat t + Suc ?n) mod C"
    using h' hd by (metis Suc_eq_plus1 add_Suc_right mod_Suc_eq)
  have old: "(buf[unat h' := d]) ! ((unat t + i) mod C) = buf ! ((unat t + i) mod C)"
    if "i \<in> set [1 ..< Suc ?n]" for i
  proof -
    from that have "unat t + i < unat t + Suc ?n" "unat t + Suc ?n - (unat t + i) < C"
      using nC by auto
    then have "(unat t + i) mod C \<noteq> (unat t + Suc ?n) mod C" by (rule mod_distinct)
    then show ?thesis by (simp add: pos)
  qed
  have "unat h' < length buf" using h' h len by simp
  then have "(buf[unat h' := d]) ! unat h' = d" by (rule nth_list_update_eq)
  then have new: "(buf[unat h' := d]) ! ((unat t + Suc ?n) mod C) = d"
    by (simp only: pos)
  have "ring_contents C (buf[unat h' := d]) h' t
      = map (\<lambda>i. (buf[unat h' := d]) ! ((unat t + i) mod C)) ([1 ..< Suc ?n] @ [Suc ?n])"
    by (simp add: ring_contents_def n')
  also have "\<dots> = map (\<lambda>i. buf ! ((unat t + i) mod C)) [1 ..< Suc ?n] @ [d]"
    using old new by (simp del: upt_Suc)
  finally show ?thesis by (simp add: ring_contents_def)
qed

lemma map_upt_shift:
  "map f [Suc 0 ..< Suc (Suc m)] = f (Suc 0) # map (\<lambda>i. f (Suc i)) [Suc 0 ..< Suc m]"
proof -
  have "[Suc 0 ..< Suc (Suc m)] = Suc 0 # [Suc (Suc 0) ..< Suc (Suc m)]"
    by (simp add: upt_conv_Cons)
  also have "[Suc (Suc 0) ..< Suc (Suc m)] = map Suc [Suc 0 ..< Suc m]"
    by (simp only: map_Suc_upt)
  finally show ?thesis by (simp add: comp_def del: upt_Suc)
qed

lemma ring_contents_pop:
  assumes h: "unat h < C" and t: "unat t < C"
    and t': "unat t' = (unat t + 1) mod C" and ne: "h \<noteq> t"
  shows "ring_contents C buf h t = buf ! unat t' # ring_contents C buf h t'"
proof -
  let ?n = "buffered C h t"
  have "?n \<noteq> 0" using buffered_zero_iff [OF h t] ne by simp
  then obtain m where m: "?n = Suc m" by (cases ?n) simp_all
  have n': "buffered C h t' = m" using buffered_pop [OF h t t' ne] m by simp
  have shift: "(unat t' + i) mod C = (unat t + Suc i) mod C" for i
    by (simp add: t' mod_simps)
  have t1: "unat t' = (unat t + Suc 0) mod C" by (simp add: t')
  have "ring_contents C buf h t = map (\<lambda>i. buf ! ((unat t + i) mod C)) [Suc 0 ..< Suc (Suc m)]"
    by (simp add: ring_contents_def m)
  also have "\<dots> = buf ! ((unat t + Suc 0) mod C) # map (\<lambda>i. buf ! ((unat t + Suc i) mod C)) [Suc 0 ..< Suc m]"
    by (rule map_upt_shift)
  also have "\<dots> = buf ! unat t' # ring_contents C buf h t'"
    by (simp only: ring_contents_def n' shift) (simp add: t1)
  finally show ?thesis .
qed

lemma ring_contents_empty: "ring_contents C buf t t = []"
  by (simp add: ring_contents_def buffered_def)

lemma length_ring_contents: "length (ring_contents C buf h t) = buffered C h t"
  by (simp add: ring_contents_def)

lemma rx_size_ok: "valid_config cfg \<Longrightarrow> buffer_size_ok (UART_RX_BUFFER_SIZE cfg)"
  by (simp add: valid_config_def)

lemma tx_size_ok: "valid_config cfg \<Longrightarrow> buffer_size_ok (UART_TX_BUFFER_SIZE cfg)"
  by (simp add: valid_config_def)

lemma rx_isr_unfold:
  assumes "valid_config cfg"
  shows "ISR_UART_RECEIVE_INTERRUPT cfg usr d s =
     (let nh = (word_of_int ((uint (UART_RxHead s) + 1) AND (int (UART_RX_BUFFER_SIZE cfg) - 1)) :: 8 word) in
      if (unat (UART_RxHead s) + 1) mod UART_RX_BUFFER_SIZE cfg = unat (UART_RxTail s)
      then s\<lparr>UART_LastRxError := 2\<rparr>
      else s\<lparr>UART_RxHead := nh, UART_RxBuf := (UART_RxBuf s)[unat nh := d],
             UART_LastRxError := usr AND (push_bit (FE cfg) 1 OR push_bit (DOR cfg) 1)\<rparr>)"
proof -
  note ok = rx_size_ok [OF assms]
  let ?t = "word_of_int ((uint (UART_RxHead s) + 1) AND (int (UART_RX_BUFFER_SIZE cfg) - 1)) :: 8 word"
  have full: "(?t = UART_RxTail s) = ((unat (UART_RxHead s) + 1) mod UART_RX_BUFFER_SIZE cfg = unat (UART_RxTail s))"
    using next_index [OF ok, of "UART_RxHead s"] by (metis word_unat_eq_iff)
  show ?thesis
    by (simp add: ISR_UART_RECEIVE_INTERRUPT_def Let_def UART_RX_BUFFER_MASK_def
        full UART_BUFFER_OVERFLOW_def)
qed

lemma rx_isr_queue:
  assumes v: "valid_config cfg" and wf: "rx_wf cfg s"
  shows "rx_wf cfg (ISR_UART_RECEIVE_INTERRUPT cfg usr d s) \<and>
         UART_RxTail (ISR_UART_RECEIVE_INTERRUPT cfg usr d s) = UART_RxTail s \<and>
         rx_queue cfg (ISR_UART_RECEIVE_INTERRUPT cfg usr d s) =
           (if length (rx_queue cfg s) = UART_RX_BUFFER_SIZE cfg - 1 then rx_queue cfg s
            else rx_queue cfg s @ [d])"
proof -
  let ?C = "UART_RX_BUFFER_SIZE cfg"
  let ?nh = "word_of_int ((uint (UART_RxHead s) + 1) AND (int ?C - 1)) :: 8 word"
  note ok = rx_size_ok [OF v]
  from wf have h: "unat (UART_RxHead s) < ?C" and t: "unat (UART_RxTail s) < ?C"
    and len: "length (UART_RxBuf s) = ?C" by (simp_all add: rx_wf_def)
  have nh: "unat ?nh = (unat (UART_RxHead s) + 1) mod ?C" by (rule next_index [OF ok])
  have nhlt: "unat ?nh < ?C" by (rule next_index_lt [OF ok])
  have full: "((unat (UART_RxHead s) + 1) mod ?C = unat (UART_RxTail s))
      = (length (rx_queue cfg s) = ?C - 1)"
    using buffered_full [OF h t] by (simp add: rx_queue_def length_ring_contents)
  show ?thesis
  proof (cases "(unat (UART_RxHead s) + 1) mod ?C = unat (UART_RxTail s)")
    case True
    then show ?thesis
      using wf full by (simp add: rx_isr_unfold [OF v] rx_wf_def rx_queue_def Let_def)
  next
    case False
    have "ring_contents ?C ((UART_RxBuf s)[unat ?nh := d]) ?nh (UART_RxTail s)
        = ring_contents ?C (UART_RxBuf s) (UART_RxHead s) (UART_RxTail s) @ [d]"
      by (rule ring_contents_push [OF h t len nh False])
    then show ?thesis
      using False full nhlt wf
      by (simp add: rx_isr_unfold [OF v] rx_wf_def rx_queue_def Let_def)
  qed
qed

lemma get_unfold:
  "UART_CharGetNonBlocking cfg s =
     (if UART_RxHead s = UART_RxTail s then (UART_NO_DATA, s)
      else let nt = (word_of_int ((uint (UART_RxTail s) + 1) AND (int (UART_RX_BUFFER_SIZE cfg) - 1)) :: 8 word)
           in (push_bit 8 (ucast (UART_LastRxError s)) + ucast (UART_RxBuf s ! unat nt),
               s\<lparr>UART_RxTail := nt\<rparr>))"
  by (simp add: UART_CharGetNonBlocking_def Let_def UART_RX_BUFFER_MASK_def)

lemma get_queue:
  assumes v: "valid_config cfg" and wf: "rx_wf cfg s"
  shows "rx_wf cfg (snd (UART_CharGetNonBlocking cfg s)) \<and>
         UART_RxHead (snd (UART_CharGetNonBlocking cfg s)) = UART_RxHead s \<and>
         UART_LastRxError (snd (UART_CharGetNonBlocking cfg s)) = UART_LastRxError s \<and>
         rx_queue cfg (snd (UART_CharGetNonBlocking cfg s)) = tl (rx_queue cfg s) \<and>
         fst (UART_CharGetNonBlocking cfg s) =
           (case rx_queue cfg s of [] \<Rightarrow> UART_NO_DATA
            | x # xs \<Rightarrow> push_bit 8 (ucast (UART_LastRxError s)) + ucast x)"
proof -
  let ?C = "UART_RX_BUFFER_SIZE cfg"
  let ?nt = "word_of_int ((uint (UART_RxTail s) + 1) AND (int ?C - 1)) :: 8 word"
  note ok = rx_size_ok [OF v]
  from wf have h: "unat (UART_RxHead s) < ?C" and t: "unat (UART_RxTail s) < ?C"
    by (simp_all add: rx_wf_def)
  have nt: "unat ?nt = (unat (UART_RxTail s) + 1) mod ?C" by (rule next_index [OF ok])
  have ntlt: "unat ?nt < ?C" by (rule next_index_lt [OF ok])
  show ?thesis
  proof (cases "UART_RxHead s = UART_RxTail s")
    case True
    then show ?thesis using wf by (simp add: get_unfold rx_queue_def ring_contents_empty)
  next
    case False
    have "ring_contents ?C (UART_RxBuf s) (UART_RxHead s) (UART_RxTail s)
        = UART_RxBuf s ! unat ?nt # ring_contents ?C (UART_RxBuf s) (UART_RxHead s) ?nt"
      by (rule ring_contents_pop [OF h t nt False])
    then show ?thesis
      using False ntlt wf by (simp add: get_unfold rx_queue_def rx_wf_def Let_def)
  qed
qed

lemma receive_all_queue:
  assumes v: "valid_config cfg"
  shows "rx_wf cfg s \<Longrightarrow> length (rx_queue cfg s) + length ins \<le> UART_RX_BUFFER_SIZE cfg - 1 \<Longrightarrow>
         rx_wf cfg (receive_all cfg ins s) \<and>
         UART_RxTail (receive_all cfg ins s) = UART_RxTail s \<and>
         rx_queue cfg (receive_all cfg ins s) = rx_queue cfg s @ map snd ins"
proof (induction ins arbitrary: s)
  case Nil
  then show ?case by simp
next
  case (Cons a ins)
  obtain usr d where a: "a = (usr, d)" by (cases a)
  let ?s1 = "ISR_UART_RECEIVE_INTERRUPT cfg usr d s"
  note step = rx_isr_queue [OF v Cons.prems(1), of usr d]
  from Cons.prems(2) have "length (rx_queue cfg s) \<noteq> UART_RX_BUFFER_SIZE cfg - 1" by simp
  with step have q1: "rx_queue cfg ?s1 = rx_queue cfg s @ [d]" by simp
  from step have wf1: "rx_wf cfg ?s1" and t1: "UART_RxTail ?s1 = UART_RxTail s" by simp_all
  have "length (rx_queue cfg ?s1) + length ins \<le> UART_RX_BUFFER_SIZE cfg - 1"
    using Cons.prems(2) q1 by simp
  from Cons.IH [OF wf1 this] show ?case by (simp add: a q1 t1)
qed

lemma get_n_queue:
  assumes v: "valid_config cfg"
  shows "rx_wf cfg s \<Longrightarrow> n \<le> length (rx_queue cfg s) \<Longrightarrow>
         rx_wf cfg (snd (get_n cfg n s)) \<and>
         UART_RxHead (snd (get_n cfg n s)) = UART_RxHead s \<and>
         rx_queue cfg (snd (get_n cfg n s)) = drop n (rx_queue cfg s) \<and>
         fst (get_n cfg n s) =
           map (\<lambda>x. push_bit 8 (ucast (UART_LastRxError s)) + ucast x) (take n (rx_queue cfg s))"
proof (induction n arbitrary: s)
  case 0
  then show ?case by simp
next
  case (Suc n)
  let ?s1 = "snd (UART_CharGetNonBlocking cfg s)"
  note step = get_queue [OF v Suc.prems(1)]
  from Suc.prems(2) obtain x xs where q: "rx_queue cfg s = x # xs"
    by (cases "rx_queue cfg s") simp_all
  from step have wf1: "rx_wf cfg ?s1" by simp
  from step q have q1: "rx_queue cfg ?s1 = xs" by simp
  from Suc.prems(2) q have "n \<le> length (rx_queue cfg ?s1)" by (simp add: q1)
  from Suc.IH [OF wf1 this] step q show ?case
    by (simp add: q1 split_beta)
qed

lemma length_rx_queue:
  "length (rx_queue cfg s) = buffered (UART_RX_BUFFER_SIZE cfg) (UART_RxHead s) (UART_RxTail s)"
  by (simp add: rx_queue_def length_ring_contents)

text \<open>
  Claim C4: starting from an empty receive buffer, \<open>N \<le> C - 1\<close> receive interrupts followed
  by \<open>N\<close> calls of \<^verbatim>\<open>UART_CharGetNonBlocking\<close>, with nothing in between, return the
  received bytes in the order they arrived. Each result carries its byte in the low byte
  and, in the high byte, the error value left by the last of the interrupts; the buffer is
  empty again afterwards.
\<close>

theorem rx_fifo:
  assumes v: "valid_config cfg" and wf: "rx_wf cfg s"
    and empty: "UART_RxHead s = UART_RxTail s"
    and n: "length ins \<le> UART_RX_BUFFER_SIZE cfg - 1"
  shows "(case get_n cfg (length ins) (receive_all cfg ins s) of (rs, s') \<Rightarrow>
           map ucast rs = map snd ins \<and>
           rs = map (\<lambda>(usr, data). push_bit 8 (ucast (UART_LastRxError (receive_all cfg ins s))) + ucast data) ins \<and>
           UART_RxHead s' = UART_RxTail s')"
proof -
  let ?s1 = "receive_all cfg ins s"
  let ?e = "UART_LastRxError ?s1"
  have q0: "rx_queue cfg s = []" by (simp add: rx_queue_def empty ring_contents_empty)
  with n have "length (rx_queue cfg s) + length ins \<le> UART_RX_BUFFER_SIZE cfg - 1" by simp
  from receive_all_queue [OF v wf this] q0
  have wf1: "rx_wf cfg ?s1" and q1: "rx_queue cfg ?s1 = map snd ins" by simp_all
  have "length ins \<le> length (rx_queue cfg ?s1)" by (simp add: q1)
  from get_n_queue [OF v wf1 this]
  have wf2: "rx_wf cfg (snd (get_n cfg (length ins) ?s1))"
    and q2: "rx_queue cfg (snd (get_n cfg (length ins) ?s1)) = []"
    and rs: "fst (get_n cfg (length ins) ?s1) = map (\<lambda>x. push_bit 8 (ucast ?e) + ucast x) (map snd ins)"
    by (simp_all add: q1)
  have low: "map ucast (fst (get_n cfg (length ins) ?s1)) = map snd ins"
    by (simp add: rs comp_def composite_low)
  have "buffered (UART_RX_BUFFER_SIZE cfg) (UART_RxHead (snd (get_n cfg (length ins) ?s1)))
          (UART_RxTail (snd (get_n cfg (length ins) ?s1))) = 0"
    using q2 by (simp flip: length_rx_queue)
  then have e2: "UART_RxHead (snd (get_n cfg (length ins) ?s1)) = UART_RxTail (snd (get_n cfg (length ins) ?s1))"
    using wf2 by (simp add: rx_wf_def buffered_zero_iff)
  show ?thesis using low rs e2 by (simp add: split_beta comp_def)
qed

theorem rx_fifo_witness:
  "valid_config cap4 \<and> rx_wf cap4 (UART_Init cap4 25 (startup cap4)) \<and>
   UART_RxHead (UART_Init cap4 25 (startup cap4)) = UART_RxTail (UART_Init cap4 25 (startup cap4)) \<and>
   length [(0, 0x41), (0, 0x42), (0x18 :: 8 word, 0x43 :: 8 word)] \<le> UART_RX_BUFFER_SIZE cap4 - 1 \<and>
   fst (get_n cap4 3 (receive_all cap4 [(0, 0x41), (0, 0x42), (0x18, 0x43)] (UART_Init cap4 25 (startup cap4))))
     = [0x1841, 0x1842, 0x1843]"
proof -
  have wf: "rx_wf cap4 (UART_Init cap4 25 (startup cap4))" by code_simp
  have e: "UART_RxHead (UART_Init cap4 25 (startup cap4)) = UART_RxTail (UART_Init cap4 25 (startup cap4))"
    by code_simp
  have n: "length [(0, 0x41), (0, 0x42), (0x18 :: 8 word, 0x43 :: 8 word)] \<le> UART_RX_BUFFER_SIZE cap4 - 1"
    by code_simp
  show ?thesis
    using rx_fifo [OF valid_cap4 wf e n] valid_cap4 wf e n by code_simp
qed

section \<open>Counting the buffered bytes\<close>

text \<open>
  Claim C1 says that \<^verbatim>\<open>UART_CharsAvail\<close> returns \<open>(RxHead - RxTail) mod C\<close>, the number of
  buffered bytes. The code reduces modulo the mask \<open>C - 1\<close> instead. In the default
  configuration, after initialisation and 31 received bytes, the buffer holds 31 bytes
  (head 31, tail 0) and the function returns 0.
\<close>

theorem chars_avail_full_buffer:
  "UART_RxHead thirty_one_received = 31 \<and> UART_RxTail thirty_one_received = 0 \<and>
   length (rx_queue atmega16 thirty_one_received) = 31 \<and>
   buffered (UART_RX_BUFFER_SIZE atmega16) (UART_RxHead thirty_one_received) (UART_RxTail thirty_one_received) = 31 \<and>
   UART_CharsAvail atmega16 thirty_one_received = Some 0"
  by code_simp

section \<open>Transmitting a string\<close>

text \<open>
  Claim C10: \<^verbatim>\<open>UART_StringPutNonBlocking\<close> on a string whose first byte is the terminator
  returns at once with the state (transmit buffer, indices, control register and all the
  rest) unchanged and no pending interrupt consumed. On a string with characters \<open>cs\<close>
  before the terminator it does what calling \<^verbatim>\<open>UART_CharPutNonBlocking\<close> on each
  character of \<open>cs\<close> in order does, whatever follows the terminator.
\<close>

theorem string_put_effect:
  "UART_StringPutNonBlocking cfg (0 # rest) pending s = Returned s pending \<and>
   (0 \<notin> set cs \<longrightarrow>
      UART_StringPutNonBlocking cfg (cs @ 0 # rest) pending s = put_each_in_order cfg cs pending s)"
proof -
  have "0 \<notin> set cs \<Longrightarrow>
      UART_StringPutNonBlocking cfg (cs @ 0 # rest) pending s = put_each_in_order cfg cs pending s"
  proof (induction cs arbitrary: pending s)
    case Nil
    then show ?case by simp
  next
    case (Cons c cs)
    then show ?case by (simp split: outcome.splits)
  qed
  then show ?thesis by simp
qed

theorem string_put_effect_witness:
  "(0 :: 8 word) \<notin> set [0x41, 0x42] \<and>
   UART_StringPutNonBlocking cap4 [0x41, 0x42, 0, 0x43] [] abc_received
     = Returned (abc_received\<lparr>UART_TxBuf := [0, 0x41, 0x42, 0], UART_TxHead := 2, UCSRB := 0xB8\<rparr>) [] \<and>
   put_each_in_order cap4 [0x41, 0x42] [] abc_received
     = Returned (abc_received\<lparr>UART_TxBuf := [0, 0x41, 0x42, 0], UART_TxHead := 2, UCSRB := 0xB8\<rparr>) []"
  using string_put_effect [where cfg = cap4 and cs = "[0x41, 0x42]" and rest = "[0x43]"
      and pending = "[]" and s = abc_received]
  by code_simp

section \<open>The indices stay in range\<close>

lemma size_pos: "buffer_size_ok n \<Longrightarrow> 0 < n"
  by (auto simp: buffer_size_ok_def)

lemma init_in_range:
  assumes "valid_config cfg"
  shows "indices_in_range cfg (UART_Init cfg baudrate s)"
  using size_pos [OF rx_size_ok [OF assms]] size_pos [OF tx_size_ok [OF assms]]
  by (simp add: indices_in_range_def UART_Init_def Let_def)

lemma rx_isr_in_range:
  assumes "valid_config cfg" "indices_in_range cfg s"
  shows "indices_in_range cfg (ISR_UART_RECEIVE_INTERRUPT cfg usr data s)"
  using assms(2) next_index_lt [OF rx_size_ok [OF assms(1)], of "UART_RxHead s"]
  by (simp add: indices_in_range_def ISR_UART_RECEIVE_INTERRUPT_def Let_def UART_RX_BUFFER_MASK_def)

lemma tx_isr_in_range:
  assumes "valid_config cfg" "indices_in_range cfg s"
  shows "indices_in_range cfg (ISR_UART_TRANSMIT_INTERRUPT cfg s)"
  using assms(2) next_index_lt [OF tx_size_ok [OF assms(1)], of "UART_TxTail s"]
  by (simp add: indices_in_range_def ISR_UART_TRANSMIT_INTERRUPT_def Let_def UART_TX_BUFFER_MASK_def)

lemma get_in_range:
  assumes "valid_config cfg" "indices_in_range cfg s"
  shows "indices_in_range cfg (snd (UART_CharGetNonBlocking cfg s))"
  using assms(2) next_index_lt [OF rx_size_ok [OF assms(1)], of "UART_RxTail s"]
  by (simp add: indices_in_range_def get_unfold Let_def)

lemma flush_in_range:
  assumes "indices_in_range cfg s"
  shows "indices_in_range cfg (UART_FlushBuffer s)"
  using assms by (simp add: indices_in_range_def UART_FlushBuffer_def)

lemma run_irq_in_range:
  assumes "valid_config cfg" "indices_in_range cfg s"
  shows "indices_in_range cfg (run_irq cfg i s)"
  using assms by (cases i) (simp_all add: rx_isr_in_range tx_isr_in_range)

lemma wait_for_space_in_range:
  assumes "valid_config cfg"
  shows "indices_in_range cfg s \<Longrightarrow> wait_for_space cfg t pending s = Some (s1, rest) \<Longrightarrow>
         indices_in_range cfg s1"
proof (induction pending arbitrary: s)
  case Nil
  then show ?case by (simp split: if_splits)
next
  case (Cons i pending)
  show ?case
  proof (cases "t = UART_TxTail s")
    case True
    with Cons.prems(2) have "wait_for_space cfg t pending (run_irq cfg i s) = Some (s1, rest)"
      by simp
    with Cons.IH [OF run_irq_in_range [OF assms Cons.prems(1)]] show ?thesis by simp
  next
    case False
    with Cons.prems show ?thesis by simp
  qed
qed

lemma put_in_range:
  assumes v: "valid_config cfg" and inv: "indices_in_range cfg s"
    and ret: "UART_CharPutNonBlocking cfg data pending s = Returned s' rest"
  shows "indices_in_range cfg s'"
proof -
  let ?t = "word_of_int ((uint (UART_TxHead s) + 1) AND (int (UART_TX_BUFFER_SIZE cfg) - 1)) :: 8 word"
  from ret obtain s1 where w: "wait_for_space cfg ?t pending s = Some (s1, rest)"
    and s': "s' = s1\<lparr>UART_TxBuf := (UART_TxBuf s1)[unat ?t := data], UART_TxHead := ?t,
                      UCSRB := UCSRB s1 OR push_bit (UDRIE cfg) 1\<rparr>"
    by (auto simp: UART_CharPutNonBlocking_def Let_def UART_TX_BUFFER_MASK_def split: option.splits)
  have "indices_in_range cfg s1" by (rule wait_for_space_in_range [OF v inv w])
  then show ?thesis
    using next_index_lt [OF tx_size_ok [OF v], of "UART_TxHead s"]
    by (simp add: s' indices_in_range_def)
qed

lemma string_put_in_range:
  assumes v: "valid_config cfg"
  shows "indices_in_range cfg s \<Longrightarrow> UART_StringPutNonBlocking cfg str pending s = Returned s' rest \<Longrightarrow>
         indices_in_range cfg s'"
proof (induction str arbitrary: pending s)
  case Nil
  then show ?case by simp
next
  case (Cons c str)
  show ?case
  proof (cases "c = 0")
    case True
    with Cons.prems show ?thesis by simp
  next
    case False
    with Cons.prems(2) obtain s1 p1 where
      put: "UART_CharPutNonBlocking cfg c pending s = Returned s1 p1" and
      more: "UART_StringPutNonBlocking cfg str p1 s1 = Returned s' rest"
      by (auto split: outcome.splits)
    from put_in_range [OF v Cons.prems(1) put] more show ?thesis by (rule Cons.IH)
  qed
qed

lemma reachable_in_range:
  assumes v: "valid_config cfg" and r: "reachable cfg s"
  shows "indices_in_range cfg s"
  using r
proof induction
  case (init s baudrate)
  show ?case by (rule init_in_range [OF v])
next
  case (rx_irq s usr data)
  then show ?case by (simp add: rx_isr_in_range [OF v])
next
  case (tx_irq s)
  then show ?case by (simp add: tx_isr_in_range [OF v])
next
  case (getc s)
  then show ?case by (simp add: get_in_range [OF v])
next
  case (putc s data pending s' pending')
  then show ?case using put_in_range [OF v] by blast
next
  case (puts s str pending s' pending')
  then show ?case using string_put_in_range [OF v] by blast
next
  case (flush s)
  then show ?case by (simp add: flush_in_range)
qed

text \<open>
  Claim C9: \<^verbatim>\<open>UART_Init\<close> puts all four indices in range, and the two interrupt
  handlers, \<^verbatim>\<open>UART_CharGetNonBlocking\<close>, \<^verbatim>\<open>UART_FlushBuffer\<close> and every returning call
  of \<^verbatim>\<open>UART_CharPutNonBlocking\<close> keep them in \<open>[0, size - 1]\<close>.
\<close>

theorem indices_stay_in_range:
  assumes v: "valid_config cfg"
  shows "indices_in_range cfg (UART_Init cfg baudrate s0) \<and>
         (indices_in_range cfg s \<longrightarrow>
            indices_in_range cfg (ISR_UART_RECEIVE_INTERRUPT cfg usr data s) \<and>
            indices_in_range cfg (ISR_UART_TRANSMIT_INTERRUPT cfg s) \<and>
            indices_in_range cfg (snd (UART_CharGetNonBlocking cfg s)) \<and>
            indices_in_range cfg (UART_FlushBuffer s) \<and>
            (\<forall>s' rest. UART_CharPutNonBlocking cfg c pending s = Returned s' rest \<longrightarrow>
               indices_in_range cfg s'))"
proof (intro conjI impI allI)
  show "indices_in_range cfg (UART_Init cfg baudrate s0)" by (rule init_in_range [OF v])
next
  assume inv: "indices_in_range cfg s"
  show "indices_in_range cfg (ISR_UART_RECEIVE_INTERRUPT cfg usr data s)"
    by (rule rx_isr_in_range [OF v inv])
  show "indices_in_range cfg (ISR_UART_TRANSMIT_INTERRUPT cfg s)"
    by (rule tx_isr_in_range [OF v inv])
  show "indices_in_range cfg (snd (UART_CharGetNonBlocking cfg s))"
    by (rule get_in_range [OF v inv])
  show "indices_in_range cfg (UART_FlushBuffer s)"
    by (rule flush_in_range [OF inv])
  fix s' rest
  assume "UART_CharPutNonBlocking cfg c pending s = Returned s' rest"
  then show "indices_in_range cfg s'" by (rule put_in_range [OF v inv])
qed

theorem indices_stay_in_range_witness:
  "valid_config cap4 \<and> indices_in_range cap4 (UART_Init cap4 25 (startup cap4)) \<and>
   indices_in_range cap4 abc_received \<and>
   indices_in_range cap4 (ISR_UART_RECEIVE_INTERRUPT cap4 0 0x44 abc_received) \<and>
   indices_in_range cap4 (ISR_UART_TRANSMIT_INTERRUPT cap4 abc_received) \<and>
   indices_in_range cap4 (snd (UART_CharGetNonBlocking cap4 abc_received)) \<and>
   indices_in_range cap4 (UART_FlushBuffer abc_received) \<and>
   UART_CharPutNonBlocking cap4 0x58 [] abc_received
     = Returned (abc_received\<lparr>UART_TxBuf := [0, 0x58, 0, 0], UART_TxHead := 1, UCSRB := 0xB8\<rparr>) [] \<and>
   indices_in_range cap4 (abc_received\<lparr>UART_TxBuf := [0, 0x58, 0, 0], UART_TxHead := 1, UCSRB := 0xB8\<rparr>)"
proof -
  have inv: "indices_in_range cap4 abc_received" by code_simp
  have put: "UART_CharPutNonBlocking cap4 0x58 [] abc_received
     = Returned (abc_received\<lparr>UART_TxBuf := [0, 0x58, 0, 0], UART_TxHead := 1, UCSRB := 0xB8\<rparr>) []"
    by code_simp
  note t = indices_stay_in_range [OF valid_cap4, where s = abc_received and baudrate = 25
      and ?s0.0 = "startup cap4" and usr = 0 and data = "0x44" and c = "0x58" and pending = "[]"]
  from t inv have a: "indices_in_range cap4 (ISR_UART_RECEIVE_INTERRUPT cap4 0 0x44 abc_received)"
    and b: "indices_in_range cap4 (ISR_UART_TRANSMIT_INTERRUPT cap4 abc_received)"
    and c: "indices_in_range cap4 (snd (UART_CharGetNonBlocking cap4 abc_received))"
    and d: "indices_in_range cap4 (UART_FlushBuffer abc_received)"
    and e: "\<forall>s' rest. UART_CharPutNonBlocking cap4 0x58 [] abc_received = Returned s' rest \<longrightarrow>
               indices_in_range cap4 s'"
    and i: "indices_in_range cap4 (UART_Init cap4 25 (startup cap4))"
    by blast+
  from e put have f: "indices_in_range cap4 (abc_received\<lparr>UART_TxBuf := [0, 0x58, 0, 0], UART_TxHead := 1, UCSRB := 0xB8\<rparr>)"
    by blast
  show ?thesis using valid_cap4 inv a b c d put f i by (intro conjI)
qed

section \<open>The busy-wait of the transmit producer\<close>

lemma rx_isr_tx_fields:
  "UART_TxHead (ISR_UART_RECEIVE_INTERRUPT cfg usr d s) = UART_TxHead s \<and>
   UART_TxTail (ISR_UART_RECEIVE_INTERRUPT cfg usr d s) = UART_TxTail s \<and>
   UART_TxBuf (ISR_UART_RECEIVE_INTERRUPT cfg usr d s) = UART_TxBuf s \<and>
   UDR (ISR_UART_RECEIVE_INTERRUPT cfg usr d s) = UDR s"
  by (simp add: ISR_UART_RECEIVE_INTERRUPT_def Let_def)

lemma run_irqs_tx_fields:
  "UDRE \<notin> set pending \<Longrightarrow>
   UART_TxHead (run_irqs cfg pending s) = UART_TxHead s \<and>
   UART_TxTail (run_irqs cfg pending s) = UART_TxTail s \<and>
   UART_TxBuf (run_irqs cfg pending s) = UART_TxBuf s \<and>
   UDR (run_irqs cfg pending s) = UDR s"
proof (induction pending arbitrary: s)
  case Nil
  then show ?case by simp
next
  case (Cons i pending)
  then obtain usr d where i: "i = RXC usr d" by (cases i) simp_all
  from Cons show ?case by (simp add: i rx_isr_tx_fields)
qed

lemma wait_for_space_free:
  "t \<noteq> UART_TxTail s \<Longrightarrow> wait_for_space cfg t pending s = Some (s, pending)"
  by (cases pending) simp_all

lemma tx_isr_unfold:
  "ISR_UART_TRANSMIT_INTERRUPT cfg s =
     (if UART_TxHead s \<noteq> UART_TxTail s
      then let nt = (word_of_int ((uint (UART_TxTail s) + 1) AND (int (UART_TX_BUFFER_SIZE cfg) - 1)) :: 8 word)
           in s\<lparr>UART_TxTail := nt, UDR := UDR s @ [UART_TxBuf s ! unat nt]\<rparr>
      else s\<lparr>UCSRB := UCSRB s AND NOT (push_bit (UDRIE cfg) 1)\<rparr>)"
  by (simp add: ISR_UART_TRANSMIT_INTERRUPT_def Let_def UART_TX_BUFFER_MASK_def)

lemma wait_for_space_full:
  assumes v: "valid_config cfg"
  shows "t = UART_TxTail s \<Longrightarrow> UART_TxHead s \<noteq> UART_TxTail s \<Longrightarrow>
     wait_for_space cfg t pending s =
       (if UDRE \<in> set pending
        then Some (ISR_UART_TRANSMIT_INTERRUPT cfg (run_irqs cfg (takeWhile (\<lambda>i. i \<noteq> UDRE) pending) s),
                   tl (dropWhile (\<lambda>i. i \<noteq> UDRE) pending))
        else None)"
proof (induction pending arbitrary: s)
  case Nil
  then show ?case by simp
next
  case (Cons i pending)
  show ?case
  proof (cases i)
    case (RXC usr d)
    let ?s1 = "ISR_UART_RECEIVE_INTERRUPT cfg usr d s"
    have "t = UART_TxTail ?s1" "UART_TxHead ?s1 \<noteq> UART_TxTail ?s1"
      using Cons.prems by (simp_all add: rx_isr_tx_fields)
    from Cons.IH [OF this] Cons.prems show ?thesis by (simp add: RXC)
  next
    case UDRE
    let ?s1 = "ISR_UART_TRANSMIT_INTERRUPT cfg s"
    have "UART_TxTail ?s1 \<noteq> UART_TxTail s"
      using Cons.prems(2) next_index_neq [OF tx_size_ok [OF v], of "UART_TxTail s"]
      by (simp add: tx_isr_unfold Let_def)
    then have "t \<noteq> UART_TxTail ?s1" using Cons.prems(1) by simp
    from wait_for_space_free [OF this] Cons.prems show ?thesis by (simp add: UDRE)
  qed
qed

section \<open>No buffer is ever filled past capacity minus one\<close>

lemma reachable_init_cap4: "reachable cap4 (UART_Init cap4 25 (startup cap4))"
  by (rule reachable.init) (simp_all add: startup_def)

lemma reachable_abc_received: "reachable cap4 abc_received"
proof -
  have eq: "abc_received = ISR_UART_RECEIVE_INTERRUPT cap4 0x18 0x43
      (ISR_UART_RECEIVE_INTERRUPT cap4 0 0x42
        (ISR_UART_RECEIVE_INTERRUPT cap4 0 0x41 (UART_Init cap4 25 (startup cap4))))"
    by (simp add: abc_received_def)
  show ?thesis
    by (subst eq) (intro reachable.rx_irq reachable_init_cap4)
qed

lemma reachable_abc_queued: "reachable cap4 abc_queued"
proof -
  have "UART_StringPutNonBlocking cap4 [0x41, 0x42, 0x43, 0] [] (UART_Init cap4 25 (startup cap4))
      = Returned abc_queued []"
    by code_simp
  with reachable_init_cap4 show ?thesis by (rule reachable.puts)
qed


lemma buffered_nonzero:
  assumes "unat h < C" "unat t < C" "buffered C h t \<noteq> 0"
  shows "h \<noteq> t"
  using assms by (simp add: buffered_zero_iff)

lemma live_bounds:
  assumes "indices_in_range cfg s"
  shows "rx_live cfg s \<le> UART_RX_BUFFER_SIZE cfg - 1" "tx_live cfg s \<le> UART_TX_BUFFER_SIZE cfg - 1"
proof -
  from assms have "rx_live cfg s < UART_RX_BUFFER_SIZE cfg" "tx_live cfg s < UART_TX_BUFFER_SIZE cfg"
    by (simp_all add: indices_in_range_def rx_live_def tx_live_def buffered_less)
  then show "rx_live cfg s \<le> UART_RX_BUFFER_SIZE cfg - 1" "tx_live cfg s \<le> UART_TX_BUFFER_SIZE cfg - 1"
    by simp_all
qed

lemma rx_isr_live:
  assumes v: "valid_config cfg" and inv: "indices_in_range cfg s"
  shows "(let s' = ISR_UART_RECEIVE_INTERRUPT cfg usr data s in
          if rx_live cfg s = UART_RX_BUFFER_SIZE cfg - 1
          then UART_RxHead s' = UART_RxHead s \<and> UART_RxBuf s' = UART_RxBuf s \<and>
               rx_live cfg s' = UART_RX_BUFFER_SIZE cfg - 1
          else rx_live cfg s' = rx_live cfg s + 1)"
proof -
  let ?C = "UART_RX_BUFFER_SIZE cfg"
  let ?nh = "word_of_int ((uint (UART_RxHead s) + 1) AND (int ?C - 1)) :: 8 word"
  from inv have h: "unat (UART_RxHead s) < ?C" and t: "unat (UART_RxTail s) < ?C"
    by (simp_all add: indices_in_range_def)
  have nh: "unat ?nh = (unat (UART_RxHead s) + 1) mod ?C"
    by (rule next_index [OF rx_size_ok [OF v]])
  note full = buffered_full [OF h t]
  show ?thesis
  proof (cases "(unat (UART_RxHead s) + 1) mod ?C = unat (UART_RxTail s)")
    case True
    then show ?thesis using full by (simp add: rx_isr_unfold [OF v] rx_live_def Let_def)
  next
    case False
    from buffered_push [OF h t nh False] False full show ?thesis
      by (simp add: rx_isr_unfold [OF v] rx_live_def Let_def)
  qed
qed

lemma put_unfold:
  "UART_CharPutNonBlocking cfg data pending s =
     (let nh = (word_of_int ((uint (UART_TxHead s) + 1) AND (int (UART_TX_BUFFER_SIZE cfg) - 1)) :: 8 word)
      in case wait_for_space cfg nh pending s of
           None \<Rightarrow> Spins
         | Some (s1, pending') \<Rightarrow>
             Returned (s1\<lparr>UART_TxBuf := (UART_TxBuf s1)[unat nh := data], UART_TxHead := nh,
                          UCSRB := UCSRB s1 OR push_bit (UDRIE cfg) 1\<rparr>) pending')"
  by (simp add: UART_CharPutNonBlocking_def UART_TX_BUFFER_MASK_def)

lemma tx_full_iff:
  assumes v: "valid_config cfg" and inv: "indices_in_range cfg s"
  shows "((word_of_int ((uint (UART_TxHead s) + 1) AND (int (UART_TX_BUFFER_SIZE cfg) - 1)) :: 8 word) = UART_TxTail s)
         = (tx_live cfg s = UART_TX_BUFFER_SIZE cfg - 1)"
proof -
  let ?C = "UART_TX_BUFFER_SIZE cfg"
  from inv have h: "unat (UART_TxHead s) < ?C" and t: "unat (UART_TxTail s) < ?C"
    by (simp_all add: indices_in_range_def)
  show ?thesis
    using next_index [OF tx_size_ok [OF v], of "UART_TxHead s"] buffered_full [OF h t]
    by (simp add: tx_live_def word_unat_eq_iff)
qed

lemma put_not_full:
  assumes v: "valid_config cfg" and inv: "indices_in_range cfg s"
    and nf: "tx_live cfg s \<noteq> UART_TX_BUFFER_SIZE cfg - 1"
  shows "\<exists>s'. UART_CharPutNonBlocking cfg data pending s = Returned s' pending \<and>
              tx_live cfg s' = tx_live cfg s + 1"
proof -
  let ?C = "UART_TX_BUFFER_SIZE cfg"
  let ?nh = "word_of_int ((uint (UART_TxHead s) + 1) AND (int ?C - 1)) :: 8 word"
  from inv have h: "unat (UART_TxHead s) < ?C" and t: "unat (UART_TxTail s) < ?C"
    by (simp_all add: indices_in_range_def)
  have nh: "unat ?nh = (unat (UART_TxHead s) + 1) mod ?C"
    by (rule next_index [OF tx_size_ok [OF v]])
  from nf have free: "?nh \<noteq> UART_TxTail s" by (simp add: tx_full_iff [OF v inv])
  then have "(unat (UART_TxHead s) + 1) mod ?C \<noteq> unat (UART_TxTail s)"
    using nh by (simp add: word_unat_eq_iff)
  from buffered_push [OF h t nh this] show ?thesis
    by (simp add: put_unfold Let_def wait_for_space_free [OF free] tx_live_def)
qed

lemma put_full_spins:
  assumes v: "valid_config cfg" and inv: "indices_in_range cfg s"
    and full: "tx_live cfg s = UART_TX_BUFFER_SIZE cfg - 1" and none: "UDRE \<notin> set pending"
  shows "UART_CharPutNonBlocking cfg data pending s = Spins"
proof -
  let ?C = "UART_TX_BUFFER_SIZE cfg"
  let ?nh = "word_of_int ((uint (UART_TxHead s) + 1) AND (int ?C - 1)) :: 8 word"
  from inv have h: "unat (UART_TxHead s) < ?C" and t: "unat (UART_TxTail s) < ?C"
    by (simp_all add: indices_in_range_def)
  have "2 \<le> ?C" using tx_size_ok [OF v] by (auto simp: buffer_size_ok_def)
  with full have "buffered ?C (UART_TxHead s) (UART_TxTail s) \<noteq> 0" by (simp add: tx_live_def)
  then have ne: "UART_TxHead s \<noteq> UART_TxTail s" by (rule buffered_nonzero [OF h t])
  from full have eq: "?nh = UART_TxTail s" by (simp add: tx_full_iff [OF v inv])
  show ?thesis
    using none by (simp add: put_unfold Let_def wait_for_space_full [OF v eq ne])
qed

lemma put_full_irq:
  assumes v: "valid_config cfg" and inv: "indices_in_range cfg s"
    and full: "tx_live cfg s = UART_TX_BUFFER_SIZE cfg - 1" and some: "UDRE \<in> set pending"
  shows "\<exists>s'. UART_CharPutNonBlocking cfg data pending s
                = Returned s' (tl (dropWhile (\<lambda>i. i \<noteq> UDRE) pending)) \<and>
              tx_live cfg s' = UART_TX_BUFFER_SIZE cfg - 1 \<and>
              length (UDR s') = length (UDR s) + 1"
proof -
  let ?C = "UART_TX_BUFFER_SIZE cfg"
  let ?nh = "word_of_int ((uint (UART_TxHead s) + 1) AND (int ?C - 1)) :: 8 word"
  let ?nt = "word_of_int ((uint (UART_TxTail s) + 1) AND (int ?C - 1)) :: 8 word"
  let ?s0 = "run_irqs cfg (takeWhile (\<lambda>i. i \<noteq> UDRE) pending) s"
  from inv have h: "unat (UART_TxHead s) < ?C" and t: "unat (UART_TxTail s) < ?C"
    by (simp_all add: indices_in_range_def)
  have "2 \<le> ?C" using tx_size_ok [OF v] by (auto simp: buffer_size_ok_def)
  with full have live: "buffered ?C (UART_TxHead s) (UART_TxTail s) = ?C - 1"
    and "buffered ?C (UART_TxHead s) (UART_TxTail s) \<noteq> 0" by (simp_all add: tx_live_def)
  from this(2) have ne: "UART_TxHead s \<noteq> UART_TxTail s" by (rule buffered_nonzero [OF h t])
  from full have eq: "?nh = UART_TxTail s" by (simp add: tx_full_iff [OF v inv])
  have nh: "unat ?nh = (unat (UART_TxHead s) + 1) mod ?C"
    by (rule next_index [OF tx_size_ok [OF v]])
  have nt: "unat ?nt = (unat (UART_TxTail s) + 1) mod ?C"
    by (rule next_index [OF tx_size_ok [OF v]])
  have ntlt: "unat ?nt < ?C" by (rule next_index_lt [OF tx_size_ok [OF v]])
  have "UDRE \<notin> set (takeWhile (\<lambda>i. i \<noteq> UDRE) pending)"
    by (auto dest: set_takeWhileD)
  from run_irqs_tx_fields [OF this, of cfg s]
  have f: "UART_TxHead ?s0 = UART_TxHead s" "UART_TxTail ?s0 = UART_TxTail s"
    "UART_TxBuf ?s0 = UART_TxBuf s" "UDR ?s0 = UDR s" by simp_all
  have pop: "buffered ?C (UART_TxHead s) ?nt = ?C - 2"
    using buffered_pop [OF h t nt ne] live by simp
  have "?nt \<noteq> UART_TxTail s" by (rule next_index_neq [OF tx_size_ok [OF v]])
  then have "(unat (UART_TxHead s) + 1) mod ?C \<noteq> unat ?nt"
    using eq nh by (metis word_unat_eq_iff)
  from buffered_push [OF h ntlt nh this] pop \<open>2 \<le> ?C\<close>
  have push: "buffered ?C ?nh ?nt = ?C - 1" by simp
  show ?thesis
    using some ne push
    by (simp add: put_unfold Let_def wait_for_space_full [OF v eq ne] tx_isr_unfold f tx_live_def)
qed

text \<open>
  Claim C6: in every reachable state each buffer holds at most \<open>C - 1\<close> live elements, and
  no producer step takes a buffer past that.
  \<^item> A receive interrupt on a full buffer leaves head and array alone, so the count stays
    \<open>C - 1\<close>; on a buffer that is not full it raises the count by one.
  \<^item> The transmit producer on a buffer that is not full returns at once, with the count
    raised by one and no pending interrupt consumed. On a full buffer it spins: without a
    transmit interrupt among the pending ones it never returns; with one, it consumes the
    interrupts up to and including the first transmit interrupt, which sends one byte and
    frees a slot, and only then inserts, so the count is \<open>C - 1\<close> again.
\<close>

theorem at_most_capacity_minus_one:
  assumes v: "valid_config cfg" and r: "reachable cfg s"
  shows "rx_live cfg s \<le> UART_RX_BUFFER_SIZE cfg - 1 \<and>
         tx_live cfg s \<le> UART_TX_BUFFER_SIZE cfg - 1 \<and>
         (let s' = ISR_UART_RECEIVE_INTERRUPT cfg usr data s in
          if rx_live cfg s = UART_RX_BUFFER_SIZE cfg - 1
          then UART_RxHead s' = UART_RxHead s \<and> UART_RxBuf s' = UART_RxBuf s \<and>
               rx_live cfg s' = UART_RX_BUFFER_SIZE cfg - 1
          else rx_live cfg s' = rx_live cfg s + 1) \<and>
         (if tx_live cfg s \<noteq> UART_TX_BUFFER_SIZE cfg - 1
          then \<exists>s'. UART_CharPutNonBlocking cfg c pending s = Returned s' pending \<and>
                    tx_live cfg s' = tx_live cfg s + 1
          else if UDRE \<in> set pending
          then \<exists>s'. UART_CharPutNonBlocking cfg c pending s
                      = Returned s' (tl (dropWhile (\<lambda>i. i \<noteq> UDRE) pending)) \<and>
                    tx_live cfg s' = UART_TX_BUFFER_SIZE cfg - 1 \<and>
                    length (UDR s') = length (UDR s) + 1
          else UART_CharPutNonBlocking cfg c pending s = Spins)"
proof -
  note inv = reachable_in_range [OF v r]
  have tx: "(if tx_live cfg s \<noteq> UART_TX_BUFFER_SIZE cfg - 1
          then \<exists>s'. UART_CharPutNonBlocking cfg c pending s = Returned s' pending \<and>
                    tx_live cfg s' = tx_live cfg s + 1
          else if UDRE \<in> set pending
          then \<exists>s'. UART_CharPutNonBlocking cfg c pending s
                      = Returned s' (tl (dropWhile (\<lambda>i. i \<noteq> UDRE) pending)) \<and>
                    tx_live cfg s' = UART_TX_BUFFER_SIZE cfg - 1 \<and>
                    length (UDR s') = length (UDR s) + 1
          else UART_CharPutNonBlocking cfg c pending s = Spins)"
    using put_not_full [OF v inv, of c pending] put_full_irq [OF v inv, of pending c]
      put_full_spins [OF v inv, of pending c]
    by (simp only: if_split) blast
  show ?thesis
    using live_bounds [OF inv] rx_isr_live [OF v inv, of usr data] tx by (intro conjI)
qed

theorem at_most_capacity_minus_one_witness:
  "valid_config cap4 \<and> reachable cap4 abc_queued \<and> reachable cap4 abc_received \<and>
   tx_live cap4 abc_queued = 3 \<and> tx_live cap4 abc_received = 0 \<and>
   rx_live cap4 abc_queued = 0 \<and> rx_live cap4 abc_received = 3 \<and>
   rx_live cap4 (ISR_UART_RECEIVE_INTERRUPT cap4 0 0x44 abc_received) = 3 \<and>
   rx_live cap4 (ISR_UART_RECEIVE_INTERRUPT cap4 0 0x44 abc_queued) = 1 \<and>
   UART_CharPutNonBlocking cap4 0x44 [RXC 0 5] abc_queued = Spins \<and>
   (\<exists>s'. UART_CharPutNonBlocking cap4 0x44 [RXC 0 5, UDRE, UDRE] abc_queued = Returned s' [UDRE] \<and>
         tx_live cap4 s' = 3 \<and> length (UDR s') = 1) \<and>
   (\<exists>s'. UART_CharPutNonBlocking cap4 0x44 [UDRE] abc_received = Returned s' [UDRE] \<and>
         tx_live cap4 s' = 1)"
proof -
  have size: "UART_TX_BUFFER_SIZE cap4 = 4" "UART_RX_BUFFER_SIZE cap4 = 4" by code_simp+
  have tq: "tx_live cap4 abc_queued = 3" and tr: "tx_live cap4 abc_received = 0"
    and rq: "rx_live cap4 abc_queued = 0" and rr: "rx_live cap4 abc_received = 3"
    and u: "length (UDR abc_queued) = 0"
    by code_simp+
  note q1 = at_most_capacity_minus_one [OF valid_cap4 reachable_abc_queued,
      where usr = 0 and data = "0x44" and c = "0x44" and pending = "[RXC 0 5]"]
  note q2 = at_most_capacity_minus_one [OF valid_cap4 reachable_abc_queued,
      where usr = 0 and data = "0x44" and c = "0x44" and pending = "[RXC 0 5, UDRE, UDRE]"]
  note q3 = at_most_capacity_minus_one [OF valid_cap4 reachable_abc_received,
      where usr = 0 and data = "0x44" and c = "0x44" and pending = "[UDRE]"]
  from q1 have a: "rx_live cap4 (ISR_UART_RECEIVE_INTERRUPT cap4 0 0x44 abc_queued) = 1"
    and b: "UART_CharPutNonBlocking cap4 0x44 [RXC 0 5] abc_queued = Spins"
    by (simp_all add: size tq rq Let_def)
  from q2 have c: "\<exists>s'. UART_CharPutNonBlocking cap4 0x44 [RXC 0 5, UDRE, UDRE] abc_queued = Returned s' [UDRE] \<and>
         tx_live cap4 s' = 3 \<and> length (UDR s') = 1"
    by (simp add: size tq rq u Let_def)
  from q3 have d: "rx_live cap4 (ISR_UART_RECEIVE_INTERRUPT cap4 0 0x44 abc_received) = 3"
    and e: "\<exists>s'. UART_CharPutNonBlocking cap4 0x44 [UDRE] abc_received = Returned s' [UDRE] \<and>
         tx_live cap4 s' = 1"
    by (simp_all add: size tr rr Let_def)
  show ?thesis
    using valid_cap4 reachable_abc_queued reachable_abc_received tq tr rq rr a b c d e
    by (intro conjI)
qed

section \<open>The transmit buffer as a queue\<close>

lemma length_tx_queue:
  "length (tx_queue cfg s) = tx_live cfg s"
  by (simp add: tx_queue_def tx_live_def length_ring_contents)

lemma tx_wf_in_range:
  "tx_wf cfg s \<Longrightarrow> unat (UART_TxHead s) < UART_TX_BUFFER_SIZE cfg \<and> unat (UART_TxTail s) < UART_TX_BUFFER_SIZE cfg"
  by (simp add: tx_wf_def)

lemma put_queue:
  assumes v: "valid_config cfg" and wf: "tx_wf cfg s"
    and nf: "length (tx_queue cfg s) \<noteq> UART_TX_BUFFER_SIZE cfg - 1"
  shows "\<exists>s'. UART_CharPutNonBlocking cfg d pending s = Returned s' pending \<and> tx_wf cfg s' \<and>
              tx_queue cfg s' = tx_queue cfg s @ [d] \<and> UDR s' = UDR s"
proof -
  let ?C = "UART_TX_BUFFER_SIZE cfg"
  let ?nh = "word_of_int ((uint (UART_TxHead s) + 1) AND (int ?C - 1)) :: 8 word"
  from wf have h: "unat (UART_TxHead s) < ?C" and t: "unat (UART_TxTail s) < ?C"
    and len: "length (UART_TxBuf s) = ?C" by (simp_all add: tx_wf_def)
  have nh: "unat ?nh = (unat (UART_TxHead s) + 1) mod ?C"
    by (rule next_index [OF tx_size_ok [OF v]])
  have nhlt: "unat ?nh < ?C" by (rule next_index_lt [OF tx_size_ok [OF v]])
  from nf have nfull: "(unat (UART_TxHead s) + 1) mod ?C \<noteq> unat (UART_TxTail s)"
    using buffered_full [OF h t] by (simp add: length_tx_queue tx_live_def)
  then have free: "?nh \<noteq> UART_TxTail s" using nh by (metis)
  have "ring_contents ?C ((UART_TxBuf s)[unat ?nh := d]) ?nh (UART_TxTail s)
      = ring_contents ?C (UART_TxBuf s) (UART_TxHead s) (UART_TxTail s) @ [d]"
    by (rule ring_contents_push [OF h t len nh nfull])
  then show ?thesis
    using wf nhlt
    by (simp add: put_unfold Let_def wait_for_space_free [OF free] tx_queue_def tx_wf_def)
qed

lemma tx_isr_queue:
  assumes v: "valid_config cfg" and wf: "tx_wf cfg s"
  shows "tx_wf cfg (ISR_UART_TRANSMIT_INTERRUPT cfg s) \<and>
         tx_queue cfg (ISR_UART_TRANSMIT_INTERRUPT cfg s) = tl (tx_queue cfg s) \<and>
         UDR (ISR_UART_TRANSMIT_INTERRUPT cfg s) = UDR s @ take 1 (tx_queue cfg s)"
proof -
  let ?C = "UART_TX_BUFFER_SIZE cfg"
  let ?nt = "word_of_int ((uint (UART_TxTail s) + 1) AND (int ?C - 1)) :: 8 word"
  from wf have h: "unat (UART_TxHead s) < ?C" and t: "unat (UART_TxTail s) < ?C"
    by (simp_all add: tx_wf_def)
  have nt: "unat ?nt = (unat (UART_TxTail s) + 1) mod ?C"
    by (rule next_index [OF tx_size_ok [OF v]])
  have ntlt: "unat ?nt < ?C" by (rule next_index_lt [OF tx_size_ok [OF v]])
  show ?thesis
  proof (cases "UART_TxHead s = UART_TxTail s")
    case True
    then show ?thesis using wf
      by (simp add: tx_isr_unfold tx_queue_def tx_wf_def ring_contents_empty)
  next
    case False
    have "ring_contents ?C (UART_TxBuf s) (UART_TxHead s) (UART_TxTail s)
        = UART_TxBuf s ! unat ?nt # ring_contents ?C (UART_TxBuf s) (UART_TxHead s) ?nt"
      by (rule ring_contents_pop [OF h t nt False])
    then show ?thesis
      using False ntlt wf by (simp add: tx_isr_unfold tx_queue_def tx_wf_def Let_def)
  qed
qed

lemma put_each_queue:
  assumes v: "valid_config cfg"
  shows "tx_wf cfg s \<Longrightarrow> length (tx_queue cfg s) + length cs \<le> UART_TX_BUFFER_SIZE cfg - 1 \<Longrightarrow>
         \<exists>s'. put_each_in_order cfg cs pending s = Returned s' pending \<and> tx_wf cfg s' \<and>
              tx_queue cfg s' = tx_queue cfg s @ cs \<and> UDR s' = UDR s"
proof (induction cs arbitrary: s)
  case Nil
  then show ?case by simp
next
  case (Cons c cs)
  from Cons.prems(2) have "length (tx_queue cfg s) \<noteq> UART_TX_BUFFER_SIZE cfg - 1" by simp
  from put_queue [OF v Cons.prems(1) this, of c pending] obtain s1 where
    put: "UART_CharPutNonBlocking cfg c pending s = Returned s1 pending" and wf1: "tx_wf cfg s1"
    and q1: "tx_queue cfg s1 = tx_queue cfg s @ [c]" and u1: "UDR s1 = UDR s" by blast
  have "length (tx_queue cfg s1) + length cs \<le> UART_TX_BUFFER_SIZE cfg - 1"
    using Cons.prems(2) by (simp add: q1)
  from Cons.IH [OF wf1 this] show ?case by (simp add: put q1 u1)
qed

lemma transmit_all_queue:
  assumes v: "valid_config cfg"
  shows "tx_wf cfg s \<Longrightarrow>
         tx_wf cfg (run_irqs cfg (replicate n UDRE) s) \<and>
         tx_queue cfg (run_irqs cfg (replicate n UDRE) s) = drop n (tx_queue cfg s) \<and>
         UDR (run_irqs cfg (replicate n UDRE) s) = UDR s @ take n (tx_queue cfg s)"
proof (induction n arbitrary: s)
  case 0
  then show ?case by simp
next
  case (Suc n)
  let ?s1 = "ISR_UART_TRANSMIT_INTERRUPT cfg s"
  note step = tx_isr_queue [OF v Suc.prems]
  then have wf1: "tx_wf cfg ?s1" by simp
  from Suc.IH [OF wf1] step show ?case
    by (cases "tx_queue cfg s") (simp_all add: drop_Suc)
qed

text \<open>
  The transmit direction is first-in first-out as well: \<open>N \<le> C - 1\<close> characters handed to
  the producer while the buffer is empty are all accepted without waiting, and the next
  \<open>N\<close> transmit interrupts write them to the data register in the same order.
\<close>

lemma tx_fifo:
  assumes v: "valid_config cfg" and wf: "tx_wf cfg s"
    and empty: "UART_TxHead s = UART_TxTail s"
    and n: "length cs \<le> UART_TX_BUFFER_SIZE cfg - 1"
  shows "\<exists>s1. put_each_in_order cfg cs pending s = Returned s1 pending \<and>
              UDR (run_irqs cfg (replicate (length cs) UDRE) s1) = UDR s @ cs \<and>
              tx_queue cfg (run_irqs cfg (replicate (length cs) UDRE) s1) = []"
proof -
  have q0: "tx_queue cfg s = []" by (simp add: tx_queue_def empty ring_contents_empty)
  with n have "length (tx_queue cfg s) + length cs \<le> UART_TX_BUFFER_SIZE cfg - 1" by simp
  from put_each_queue [OF v wf this, of pending] obtain s1 where
    put: "put_each_in_order cfg cs pending s = Returned s1 pending" and wf1: "tx_wf cfg s1"
    and q1: "tx_queue cfg s1 = cs" and u1: "UDR s1 = UDR s" by (auto simp: q0)
  from transmit_all_queue [OF v wf1, of "length cs"] show ?thesis
    by (simp add: put q1 u1)
qed

end
